theory Spec2Isabelle
  imports Complex_Main
begin

section \<open>The LRU cache of lru-cache.js\<close>

text \<open>
  The cache keeps a doubly-linked list inside two typed arrays of slot numbers
  (\<open>forward\<close>, \<open>backward\<close>), the stored keys and values in two ordinary arrays, and a
  \<open>Map\<close> from keys to slot numbers. The model below follows the JavaScript statement
  by statement. Every method takes the object's state and returns the new state (with
  the method's result, when it has one).
\<close>

subsection \<open>JavaScript values\<close>

text \<open>
  A value that may be \<open>undefined\<close> is an option: \<open>None\<close> is \<open>undefined\<close>. Keys and
  values are arbitrary JavaScript values, so they are options too: \<open>undefined\<close> is a
  legal \<open>Map\<close> key and a legal stored value. A pointer is a slot number or
  \<open>undefined\<close> (which is what reading outside a typed array gives).
\<close>

type_synonym ptr = "nat option"

datatype error = RangeError

subsection \<open>Typed arrays and ordinary arrays\<close>

text \<open>
  An unsigned typed array of \<open>bits\<close>-bit cells. The code indexes it with pointers only.
  With a number inside the array, a read gives the cell and a write stores the value
  modulo \<open>2 ^ bits\<close> (\<open>undefined\<close> is stored as 0). With a number outside the array, a
  read gives \<open>undefined\<close> and a write is dropped. With \<open>undefined\<close> as the index,
  JavaScript reads and writes the ordinary property named "undefined" of the array
  object: \<open>extra\<close> holds it.
\<close>

record tarray =
  bits :: nat
  cells :: "nat list"
  extra :: ptr

definition ta_get :: "tarray \<Rightarrow> ptr \<Rightarrow> ptr" where
  "ta_get a p =
     (case p of
        None \<Rightarrow> extra a
      | Some i \<Rightarrow> if i < length (cells a) then Some (cells a ! i) else None)"

definition to_uint :: "nat \<Rightarrow> ptr \<Rightarrow> nat" where
  "to_uint w v = (case v of None \<Rightarrow> 0 | Some n \<Rightarrow> n mod 2 ^ w)"

definition ta_set :: "tarray \<Rightarrow> ptr \<Rightarrow> ptr \<Rightarrow> tarray" where
  "ta_set a p v =
     (case p of
        None \<Rightarrow> a\<lparr>extra := v\<rparr>
      | Some i \<Rightarrow> a\<lparr>cells := (cells a)[i := to_uint (bits a) v]\<rparr>)"

text \<open>
  A JavaScript number: a finite one (every finite double is a rational), NaN, or one of
  the two infinities. The constructor documents its parameter as a number.
\<close>

datatype jsnumber = NaN | PosInf | NegInf | Num rat

text \<open>
  The length \<open>new PointerArray(n)\<close> takes from a number \<open>n\<close> (ToIndex): NaN counts as 0,
  a finite number is truncated towards zero, and a negative length, an infinite one or
  one above \<open>2^53 - 1\<close> raises RangeError.
\<close>

definition js_trunc :: "rat \<Rightarrow> int" where
  "js_trunc n = (if 0 \<le> n then \<lfloor>n\<rfloor> else \<lceil>n\<rceil>)"

definition to_index :: "jsnumber \<Rightarrow> error + nat" where
  "to_index n =
     (case n of
        NaN \<Rightarrow> Inr 0
      | PosInf \<Rightarrow> Inl RangeError
      | NegInf \<Rightarrow> Inl RangeError
      | Num q \<Rightarrow>
          (let len = js_trunc q in
           if len < 0 \<or> 2 ^ 53 - 1 < len then Inl RangeError else Inr (nat len)))"

text \<open>
  \<open>new PointerArray(n)\<close> then allocates a buffer of one cell of \<open>w\<close> bits per element,
  and raises RangeError when the engine cannot allocate it. \<open>heap\<close> is the number of bytes
  the engine can still allocate: the call fails when the buffer needs more, and returns
  what is left otherwise. The cells start at 0.
\<close>

definition new_PointerArray :: "nat \<Rightarrow> nat \<Rightarrow> jsnumber \<Rightarrow> error + tarray \<times> nat" where
  "new_PointerArray heap w n =
     (case to_index n of
        Inl e \<Rightarrow> Inl e
      | Inr len \<Rightarrow>
          if heap < len * (w div 8) then Inl RangeError
          else Inr (\<lparr>bits = w, cells = replicate len 0, extra = None\<rparr>,
                    heap - len * (w div 8)))"

text \<open>
  An ordinary array is read and written by the code through \<open>a[pointer]\<close> only, never
  through its length: it is a function from property keys (pointers) to values, with
  \<open>undefined\<close> where nothing was stored. \<open>new Array(n)\<close> for a number \<open>n\<close> raises
  RangeError unless \<open>n\<close> is an integer from 0 to \<open>2^32 - 1\<close> (so also for NaN and the
  infinities). It reserves no cells.
\<close>

type_synonym 'a jsarray = "ptr \<Rightarrow> 'a option"

definition new_Array :: "jsnumber \<Rightarrow> error + 'a jsarray" where
  "new_Array n =
     (case n of
        Num q \<Rightarrow>
          if q = of_int \<lfloor>q\<rfloor> \<and> 0 \<le> q \<and> q \<le> 2 ^ 32 - 1 then Inr (\<lambda>p. None)
          else Inl RangeError
      | _ \<Rightarrow> Inl RangeError)"

text \<open>
  Modelled from the spec: \<open>typed.getPointerArray\<close> of utils/typed-arrays.js, which is
  not among the sources. The spec (4.1): it "returns the smallest unsigned fixed-width
  integer representation able to index [0, capacity)", is pure and has no failure
  mode. The result is the width in bits. For a capacity that is not a finite number the
  spec says nothing; the widest is taken here (the constructor fails for these whatever
  the width).
\<close>

definition getPointerArray :: "jsnumber \<Rightarrow> nat" where
  "getPointerArray capacity =
     (case capacity of
        Num q \<Rightarrow> if q \<le> 2 ^ 8 then 8 else if q \<le> 2 ^ 16 then 16 else 32
      | _ \<Rightarrow> 32)"

subsection \<open>The cache\<close>

record ('k, 'v) cache =
  capacity :: nat
  forward :: tarray
  backward :: tarray
  keys :: "'k jsarray"
  values_c :: "'v jsarray"
  items :: "'k option \<rightharpoonup> ptr"
  size_c :: nat
  head :: ptr
  tail :: ptr

text \<open>\<open>items.get(key)\<close>: \<open>undefined\<close> for a key that is not in the map.\<close>

definition items_get :: "('k, 'v) cache \<Rightarrow> 'k option \<Rightarrow> ptr" where
  "items_get c key = (case items c key of None \<Rightarrow> None | Some p \<Rightarrow> p)"

definition clear :: "('k, 'v) cache \<Rightarrow> ('k, 'v) cache" where
  "clear c = c\<lparr>size_c := 0, head := Some 0, tail := Some 0, items := Map.empty\<rparr>"

text \<open>
  The constructor, for a capacity that is a JavaScript number, in an engine that can
  allocate \<open>heap\<close> bytes. The four allocations run in the source's order and the first
  RangeError leaves the constructor. Where all four succeed the capacity is an integer
  from 0 to \<open>2^32 - 1\<close>, and the field \<open>capacity\<close> holds it as a natural number.
\<close>

definition nat_of_number :: "jsnumber \<Rightarrow> nat" where
  "nat_of_number n = (case n of Num q \<Rightarrow> nat \<lfloor>q\<rfloor> | _ \<Rightarrow> 0)"

definition LRUCache :: "nat \<Rightarrow> jsnumber \<Rightarrow> error + ('k, 'v) cache" where
  "LRUCache heap cap =
     (let PointerArray = getPointerArray cap in
      case new_PointerArray heap PointerArray cap of Inl e \<Rightarrow> Inl e | Inr (fw, heap1) \<Rightarrow>
      case new_PointerArray heap1 PointerArray cap of Inl e \<Rightarrow> Inl e | Inr (bw, heap2) \<Rightarrow>
      case new_Array cap of Inl e \<Rightarrow> Inl e | Inr ks \<Rightarrow>
      case new_Array cap of Inl e \<Rightarrow> Inl e | Inr vs \<Rightarrow>
        Inr (clear \<lparr>capacity = nat_of_number cap, forward = fw, backward = bw, keys = ks,
                    values_c = vs, items = Map.empty, size_c = 0, head = None,
                    tail = None\<rparr>))"

definition splayOnTop :: "('k, 'v) cache \<Rightarrow> ptr \<Rightarrow> ('k, 'v) cache" where
  "splayOnTop c pointer =
     (let oldHead = head c in
      if head c = pointer then c
      else
        let c1 = (if tail c = pointer
                  then c\<lparr>tail := ta_get (backward c) pointer\<rparr>
                  else c\<lparr>backward := ta_set (backward c) (ta_get (forward c) pointer)
                                        (ta_get (backward c) pointer)\<rparr>);
            c2 = c1\<lparr>forward := ta_set (forward c1) (ta_get (backward c1) pointer)
                                  (ta_get (forward c1) pointer)\<rparr>;
            c3 = c2\<lparr>backward := ta_set (backward c2) oldHead pointer\<rparr>;
            c4 = c3\<lparr>head := pointer\<rparr>
        in c4\<lparr>forward := ta_set (forward c4) pointer oldHead\<rparr>)"

definition set_c :: "('k, 'v) cache \<Rightarrow> 'k option \<Rightarrow> 'v option \<Rightarrow> ('k, 'v) cache" where
  "set_c c key val =
     (let existingPointer = items_get c key in
      if existingPointer \<noteq> None then
        (let c1 = splayOnTop c existingPointer
         in c1\<lparr>values_c := (values_c c1)(existingPointer := val)\<rparr>)
      else
        let (pointer, c1) =
              (if size_c c < capacity c then (Some (size_c c), c\<lparr>size_c := size_c c + 1\<rparr>)
               else
                 let pointer = tail c;
                     d = c\<lparr>tail := ta_get (backward c) pointer\<rparr>
                 in (pointer, d\<lparr>items := (items d)(keys d pointer := None)\<rparr>));
            c2 = c1\<lparr>items := (items c1)(key \<mapsto> pointer)\<rparr>;
            c3 = c2\<lparr>keys := (keys c2)(pointer := key)\<rparr>;
            c4 = c3\<lparr>values_c := (values_c c3)(pointer := val)\<rparr>
        in if 1 < size_c c4 then
             (let previousPointer = head c4;
                  c5 = c4\<lparr>head := pointer\<rparr>;
                  c6 = c5\<lparr>backward := ta_set (backward c5) previousPointer pointer\<rparr>
              in c6\<lparr>forward := ta_set (forward c6) pointer previousPointer\<rparr>)
           else c4)"

definition has :: "('k, 'v) cache \<Rightarrow> 'k option \<Rightarrow> bool \<times> ('k, 'v) cache" where
  "has c key = (key \<in> dom (items c), c)"

definition get :: "('k, 'v) cache \<Rightarrow> 'k option \<Rightarrow> 'v option \<times> ('k, 'v) cache" where
  "get c key =
     (let pointer = items_get c key in
      if pointer = None then (None, c)
      else
        let c1 = splayOnTop c pointer
        in (values_c c1 pointer, c1))"

subsection \<open>The iterator of entries\<close>

text \<open>
  \<open>entries\<close> returns an iterator: a closure over the counter \<open>i\<close>, the size \<open>l\<close> read at
  creation, the current pointer, and the three arrays it reads. Its body assigns to
  \<open>i\<close> and \<open>pointer\<close> only.
\<close>

record ('k, 'v) iterator =
  it_i :: nat
  it_l :: nat
  it_pointer :: ptr
  it_keys :: "'k jsarray"
  it_values :: "'v jsarray"
  it_forward :: tarray

datatype ('k, 'v) step = Done | Yield "'k option" "'v option"

definition entries :: "('k, 'v) cache \<Rightarrow> ('k, 'v) iterator \<times> ('k, 'v) cache" where
  "entries c =
     (\<lparr>it_i = 0, it_l = size_c c, it_pointer = head c, it_keys = keys c,
       it_values = values_c c, it_forward = forward c\<rparr>, c)"

definition entries_next :: "('k, 'v) iterator \<Rightarrow> ('k, 'v) step \<times> ('k, 'v) iterator" where
  "entries_next it =
     (if it_l it \<le> it_i it then (Done, it)
      else
        let key = it_keys it (it_pointer it);
            val = it_values it (it_pointer it);
            it1 = it\<lparr>it_i := it_i it + 1\<rparr>;
            it2 = (if it_i it1 < it_l it1
                   then it1\<lparr>it_pointer := ta_get (it_forward it1) (it_pointer it1)\<rparr>
                   else it1)
        in (Yield key val, it2))"

text \<open>Calling \<open>next\<close> until it says done, as \<open>inspect\<close> does, collecting the pairs.\<close>

function consume :: "('k, 'v) iterator \<Rightarrow> ('k option \<times> 'v option) list" where
  "consume it =
     (case fst (entries_next it) of
        Done \<Rightarrow> []
      | Yield k v \<Rightarrow> (k, v) # consume (snd (entries_next it)))"
  by pat_completeness auto
termination
  by (relation "measure (\<lambda>it. it_l it - it_i it)")
     (auto simp: entries_next_def Let_def split: if_splits)

text \<open>
  The same loop, returning the iterator it leaves behind: the closure after a full
  traversal.
\<close>

function drain :: "('k, 'v) iterator \<Rightarrow> ('k, 'v) iterator" where
  "drain it =
     (case fst (entries_next it) of
        Done \<Rightarrow> snd (entries_next it)
      | Yield k v \<Rightarrow> drain (snd (entries_next it)))"
  by pat_completeness auto
termination
  by (relation "measure (\<lambda>it. it_l it - it_i it)")
     (auto simp: entries_next_def Let_def split: if_splits)

subsection \<open>Well-formed states\<close>

text \<open>
  \<open>linked fw bw ps\<close>: in the cell lists \<open>fw\<close> and \<open>bw\<close>, each slot of \<open>ps\<close> points forward
  to its successor in \<open>ps\<close>, and that successor points backward to it.
\<close>

definition linked :: "nat list \<Rightarrow> nat list \<Rightarrow> nat list \<Rightarrow> bool" where
  "linked fw bw ps = successively (\<lambda>p q. fw ! p = q \<and> bw ! q = p) ps"

text \<open>
  The invariant of the cache, for the list \<open>ps\<close> of its live slots from the most to the
  least recently used: the arrays have the capacity as length and cells wide enough for
  every slot number; the live slots are \<open>0 .. size - 1\<close>, chained from \<open>head\<close> to \<open>tail\<close>;
  the key index is the inverse of \<open>keys\<close> on the live slots; an empty cache has
  \<open>head = tail = 0\<close>; and with capacity 1 the cell \<open>backward[0]\<close> is 0 (the eviction
  reads it).
\<close>

definition lru_inv :: "('k, 'v) cache \<Rightarrow> nat list \<Rightarrow> bool" where
  "lru_inv c ps \<longleftrightarrow>
     0 < capacity c \<and> size_c c \<le> capacity c \<and>
     length (cells (forward c)) = capacity c \<and>
     length (cells (backward c)) = capacity c \<and>
     capacity c \<le> 2 ^ bits (forward c) \<and> capacity c \<le> 2 ^ bits (backward c) \<and>
     distinct ps \<and> set ps = {0..<size_c c} \<and>
     head c = Some (if ps = [] then 0 else hd ps) \<and>
     tail c = Some (if ps = [] then 0 else last ps) \<and>
     linked (cells (forward c)) (cells (backward c)) ps \<and>
     (\<forall>p<size_c c. items c (keys c (Some p)) = Some (Some p)) \<and>
     dom (items c) = (\<lambda>p. keys c (Some p)) ` {0..<size_c c} \<and>
     (capacity c = 1 \<longrightarrow> cells (backward c) ! 0 = 0)"

text \<open>
  The states a program can reach: those of a cache constructed with a positive capacity,
  after any calls of the public methods.
\<close>

inductive reachable :: "('k, 'v) cache \<Rightarrow> bool" where
  reach_new: "LRUCache heap (Num cap) = Inr c \<Longrightarrow> 0 < cap \<Longrightarrow> reachable c"
| reach_set: "reachable c \<Longrightarrow> reachable (set_c c key val)"
| reach_get: "reachable c \<Longrightarrow> reachable (snd (get c key))"
| reach_has: "reachable c \<Longrightarrow> reachable (snd (has c key))"
| reach_clear: "reachable c \<Longrightarrow> reachable (clear c)"
| reach_entries: "reachable c \<Longrightarrow> reachable (snd (entries c))"

text \<open>The pairs a fresh traversal of the cache yields, in order.\<close>

definition entries_list :: "('k, 'v) cache \<Rightarrow> ('k option \<times> 'v option) list" where
  "entries_list c = consume (fst (entries c))"

subsection \<open>Sequences of operations\<close>

text \<open>
  A program that calls \<open>set\<close> and \<open>get\<close>: \<open>run\<close> gives the final state, \<open>touched\<close> the
  keys it touched, oldest first: the key of every \<open>set\<close>, and the key of every \<open>get\<close>
  that found its key. \<open>recent n ts\<close> are the \<open>n\<close> most recently touched distinct keys of
  the log \<open>ts\<close>, the most recent first.
\<close>

datatype ('k, 'v) op = Set "'k option" "'v option" | Get "'k option"

fun run :: "('k, 'v) cache \<Rightarrow> ('k, 'v) op list \<Rightarrow> ('k, 'v) cache" where
  "run c [] = c"
| "run c (Set k v # ops) = run (set_c c k v) ops"
| "run c (Get k # ops) = run (snd (get c k)) ops"

fun touched :: "('k, 'v) cache \<Rightarrow> ('k, 'v) op list \<Rightarrow> 'k option list" where
  "touched c [] = []"
| "touched c (Set k v # ops) = k # touched (set_c c k v) ops"
| "touched c (Get k # ops) =
     (if items_get c k \<noteq> None then [k] else []) @ touched (snd (get c k)) ops"

definition recent :: "nat \<Rightarrow> 'a list \<Rightarrow> 'a list" where
  "recent n ts = take n (rev (remdups ts))"

text \<open>
  The state the constructor returns for a capacity \<open>m\<close> below \<open>2^32\<close>, when the typed
  arrays can be allocated.
\<close>

definition fresh :: "nat \<Rightarrow> ('k, 'v) cache" where
  "fresh m =
     \<lparr>capacity = m,
      forward = \<lparr>bits = getPointerArray (Num (of_nat m)), cells = replicate m 0, extra = None\<rparr>,
      backward = \<lparr>bits = getPointerArray (Num (of_nat m)), cells = replicate m 0, extra = None\<rparr>,
      keys = \<lambda>p. None, values_c = \<lambda>p. None, items = Map.empty,
      size_c = 0, head = Some 0, tail = Some 0\<rparr>"

text \<open>
  The scenario of the specification (section 8), used for the concrete checks: a cache of
  capacity 3 after \<open>set(a, 1); set(b, 2); set(c, 3)\<close>.
\<close>

definition demo :: "(string, nat) cache" where
  "demo = run (fresh 3) [Set (Some ''a'') (Some 1), Set (Some ''b'') (Some 2),
                          Set (Some ''c'') (Some 3)]"

text \<open>
  The constructor also accepts the capacity 0. Two states of such a cache, after
  \<open>set(x, 1)\<close> and then \<open>set(y, 2)\<close>.
\<close>

definition zero1 :: "(string, nat) cache" where
  "zero1 = set_c (fresh 0) (Some ''x'') (Some 1)"

definition zero2 :: "(string, nat) cache" where
  "zero2 = set_c zero1 (Some ''y'') (Some 2)"

section \<open>The invariant\<close>

subsection \<open>Typed arrays inside their range\<close>

lemma ta_get_Some: "ta_get a (Some i) = (if i < length (cells a) then Some (cells a ! i) else None)"
  by (simp add: ta_get_def)

lemma cells_ta_set_Some:
  "cells (ta_set a (Some i) (Some v)) = (cells a)[i := v mod 2 ^ bits a]"
  by (simp add: ta_set_def to_uint_def)

lemma bits_ta_set [simp]: "bits (ta_set a p v) = bits a"
  by (simp add: ta_set_def split: option.split)

lemma length_cells_ta_set [simp]: "length (cells (ta_set a p v)) = length (cells a)"
  by (simp add: ta_set_def split: option.split)

subsection \<open>What splayOnTop leaves alone\<close>

lemma splayOnTop_frame [simp]:
  "capacity (splayOnTop c p) = capacity c"
  "size_c (splayOnTop c p) = size_c c"
  "keys (splayOnTop c p) = keys c"
  "values_c (splayOnTop c p) = values_c c"
  "items (splayOnTop c p) = items c"
  "bits (forward (splayOnTop c p)) = bits (forward c)"
  "bits (backward (splayOnTop c p)) = bits (backward c)"
  "length (cells (forward (splayOnTop c p))) = length (cells (forward c))"
  "length (cells (backward (splayOnTop c p))) = length (cells (backward c))"
  by (simp_all add: splayOnTop_def Let_def)

lemma splayOnTop_head: "splayOnTop c (head c) = c"
  by (simp add: splayOnTop_def)

lemma head_splayOnTop [simp]: "head (splayOnTop c p) = p"
  by (simp add: splayOnTop_def Let_def)

subsection \<open>The linked list inside the arrays\<close>

lemma linked_simps [simp]:
  "linked fw bw []"
  "linked fw bw [p]"
  "linked fw bw (p # q # ps) \<longleftrightarrow> fw ! p = q \<and> bw ! q = p \<and> linked fw bw (q # ps)"
  by (simp_all add: linked_def)

lemma linked_Cons:
  "linked fw bw (p # ps) \<longleftrightarrow> ps = [] \<or> fw ! p = hd ps \<and> bw ! hd ps = p \<and> linked fw bw ps"
  by (cases ps) auto

lemma linked_append:
  "linked fw bw (xs @ ys) \<longleftrightarrow>
     linked fw bw xs \<and> linked fw bw ys \<and>
     (xs = [] \<or> ys = [] \<or> fw ! last xs = hd ys \<and> bw ! hd ys = last xs)"
  by (simp add: linked_def successively_append_iff)

lemma linked_fw_update:
  "a \<notin> set (butlast ps) \<Longrightarrow> linked (fw[a := v]) bw ps = linked fw bw ps"
  by (induction ps rule: induct_list012) (auto simp: nth_list_update_neq)

lemma linked_bw_update:
  "a \<notin> set (tl ps) \<Longrightarrow> linked fw (bw[a := v]) ps = linked fw bw ps"
  by (induction ps rule: induct_list012) (auto simp: nth_list_update_neq)

lemma lru_inv_length: "lru_inv c ps \<Longrightarrow> length ps = size_c c"
  unfolding lru_inv_def using distinct_card[of ps] by auto

lemma lru_inv_bound: "lru_inv c ps \<Longrightarrow> p \<in> set ps \<Longrightarrow> p < capacity c"
  unfolding lru_inv_def by auto

lemma last_notin_butlast: "distinct xs \<Longrightarrow> xs \<noteq> [] \<Longrightarrow> last xs \<notin> set (butlast xs)"
  by (induction xs) auto

lemma hd_notin_tl: "distinct xs \<Longrightarrow> hd xs \<notin> set (tl xs)"
  by (cases xs) auto

lemma notin_butlast: "a \<notin> set xs \<Longrightarrow> a \<notin> set (butlast xs)"
  by (auto dest: in_set_butlastD)

lemma notin_tl: "a \<notin> set xs \<Longrightarrow> a \<notin> set (tl xs)"
  by (cases xs) auto

text \<open>Promoting the slot in the middle or at the end of the list.\<close>

lemma splayOnTop_inv_split:
  assumes inv: "lru_inv c (xs @ p # ys)" and xs: "xs \<noteq> []"
  shows "lru_inv (splayOnTop c (Some p)) (p # xs @ ys)"
proof -
  let ?F = "cells (forward c)" and ?B = "cells (backward c)"
  let ?n = "capacity c"
  let ?c' = "splayOnTop c (Some p)"
  from inv have len: "length ?F = ?n" "length ?B = ?n"
    and bits: "?n \<le> 2 ^ bits (forward c)" "?n \<le> 2 ^ bits (backward c)"
    and dist: "distinct (xs @ p # ys)"
    and hd: "head c = Some (hd xs)"
    and tl: "tail c = Some (last (p # ys))"
    and lnk: "linked ?F ?B (xs @ p # ys)"
    using xs by (auto simp: lru_inv_def)
  have bound: "\<And>q. q \<in> set (xs @ p # ys) \<Longrightarrow> q < ?n"
    using inv by (rule lru_inv_bound)
  have p: "p < ?n" and hx: "hd xs < ?n" and lx: "last xs < ?n"
    using bound xs by auto
  have pmod: "p mod 2 ^ bits (backward c) = p" "hd xs mod 2 ^ bits (forward c) = hd xs"
    using p hx bits by auto
  have ne: "hd xs \<noteq> p" "last xs \<noteq> p" "p \<notin> set xs" "p \<notin> set ys"
    using dist xs by auto
  have dxs: "distinct xs" and dys: "distinct ys" using dist by auto
  have Bp: "?B ! p = last xs" and Flx: "?F ! last xs = p"
    using lnk xs by (auto simp: linked_append)
  have lxs: "linked ?F ?B xs" and lys: "linked ?F ?B ys"
    using lnk by (auto simp: linked_append linked_Cons)
  have cap1: "capacity c \<noteq> 1"
  proof
    assume "capacity c = 1"
    then have "p = 0" "hd xs = 0" using p hx by auto
    then show False using ne by simp
  qed
  have rest: "0 < capacity ?c'" "size_c ?c' \<le> capacity ?c'"
     "length (cells (forward ?c')) = capacity ?c'"
     "length (cells (backward ?c')) = capacity ?c'"
     "capacity ?c' \<le> 2 ^ bits (forward ?c')" "capacity ?c' \<le> 2 ^ bits (backward ?c')"
     "distinct (p # xs @ ys)" "set (p # xs @ ys) = {0..<size_c ?c'}"
     "\<forall>q<size_c ?c'. items ?c' (keys ?c' (Some q)) = Some (Some q)"
     "dom (items ?c') = (\<lambda>q. keys ?c' (Some q)) ` {0..<size_c ?c'}"
     "capacity ?c' = 1 \<longrightarrow> cells (backward ?c') ! 0 = 0"
    using inv cap1 by (auto simp: lru_inv_def)
  have H': "head ?c' = Some (if p # xs @ ys = [] then 0 else hd (p # xs @ ys))"
    by simp
  show ?thesis
  proof (cases "ys = []")
    case True
    have F': "cells (forward ?c') = ?F[last xs := (?F ! p) mod 2 ^ bits (forward c), p := hd xs]"
      and B': "cells (backward ?c') = ?B[hd xs := p]"
      and T': "tail ?c' = Some (last xs)"
      using True hd tl ne p len Bp pmod
      by (simp_all add: splayOnTop_def Let_def ta_get_Some cells_ta_set_Some)
    have "linked (cells (forward ?c')) (cells (backward ?c')) xs"
      unfolding F' B' using lxs dxs xs ne
      by (simp add: linked_fw_update linked_bw_update last_notin_butlast hd_notin_tl
            notin_butlast notin_tl)
    then have L': "linked (cells (forward ?c')) (cells (backward ?c')) (p # xs @ ys)"
      using True xs p hx len ne by (simp add: linked_Cons F' B')
    have T'': "tail ?c' = Some (if p # xs @ ys = [] then 0 else last (p # xs @ ys))"
      using True xs T' by simp
    show ?thesis
      unfolding lru_inv_def using rest H' T'' L' by blast
  next
    case False
    have Fp: "?F ! p = hd ys" and Bhy: "?B ! hd ys = p"
      using lnk False by (auto simp: linked_append linked_Cons)
    have mem: "hd xs \<in> set xs" "last xs \<in> set xs" "hd ys \<in> set ys"
      using xs False by auto
    have hy: "hd ys < ?n" and hyne: "hd ys \<noteq> p" "hd ys \<noteq> hd xs" "hd ys \<noteq> last xs"
        "hd ys \<notin> set xs" "last xs \<notin> set ys" "hd xs \<notin> set ys"
      using bound mem dist by auto
    have mods: "last xs mod 2 ^ bits (backward c) = last xs"
        "hd ys mod 2 ^ bits (forward c) = hd ys"
      using lx hy bits by auto
    have tlne: "tail c \<noteq> Some p"
      using tl False ne by auto
    have F': "cells (forward ?c') = ?F[last xs := hd ys, p := hd xs]"
      and B': "cells (backward ?c') = ?B[hd ys := last xs, hd xs := p]"
      and T': "tail ?c' = tail c"
      using hd tlne ne p len Bp Fp pmod mods hy hyne
      by (simp_all add: splayOnTop_def Let_def ta_get_Some cells_ta_set_Some)
    have 1: "linked (cells (forward ?c')) (cells (backward ?c')) xs"
      unfolding F' B' using lxs dxs xs ne hyne
      by (simp add: linked_fw_update linked_bw_update last_notin_butlast hd_notin_tl
            notin_butlast notin_tl)
    have 2: "linked (cells (forward ?c')) (cells (backward ?c')) ys"
      unfolding F' B' using lys dys ne hyne
      by (simp add: linked_fw_update linked_bw_update last_notin_butlast hd_notin_tl
            notin_butlast notin_tl)
    have L': "linked (cells (forward ?c')) (cells (backward ?c')) (p # xs @ ys)"
      using 1 2 False xs p hx lx hy len ne hyne
      by (simp add: linked_Cons linked_append F' B')
    have T'': "tail ?c' = Some (if p # xs @ ys = [] then 0 else last (p # xs @ ys))"
      using False T' tl by simp
    show ?thesis
      unfolding lru_inv_def using rest H' T'' L' by blast
  qed
qed

lemma splayOnTop_inv:
  assumes inv: "lru_inv c ps" and p: "p \<in> set ps"
  shows "lru_inv (splayOnTop c (Some p)) (p # remove1 p ps)"
proof -
  from p obtain xs ys where ps: "ps = xs @ p # ys" and nx: "p \<notin> set xs"
    by (auto dest: split_list_first)
  have rm: "remove1 p ps = xs @ ys"
    using nx by (simp add: ps remove1_append)
  show ?thesis
  proof (cases "xs = []")
    case True
    then have "head c = Some p" using inv ps by (simp add: lru_inv_def)
    then have "splayOnTop c (Some p) = c" using splayOnTop_head[of c] by simp
    then show ?thesis using inv ps True rm by simp
  next
    case False
    then show ?thesis using splayOnTop_inv_split[of c xs p ys] inv ps rm by simp
  qed
qed

lemma lru_inv_items:
  assumes inv: "lru_inv c ps" and it: "items c k = Some q"
  shows "\<exists>p. q = Some p \<and> p \<in> set ps \<and> keys c (Some p) = k"
proof -
  from it have "k \<in> dom (items c)" by auto
  then obtain p where p: "p < size_c c" "k = keys c (Some p)"
    using inv by (auto simp: lru_inv_def)
  then have "items c k = Some (Some p)" using inv by (simp add: lru_inv_def)
  then show ?thesis using it p inv by (auto simp: lru_inv_def)
qed

lemma lru_inv_items_get:
  assumes inv: "lru_inv c ps"
  shows "items_get c k = None \<longleftrightarrow> k \<notin> dom (items c)"
  using lru_inv_items[OF inv, of k] by (auto simp: items_get_def split: option.splits)

lemma lru_inv_keys_inj:
  assumes inv: "lru_inv c ps" and "p < size_c c" "q < size_c c"
    and "keys c (Some p) = keys c (Some q)"
  shows "p = q"
proof -
  from inv have a: "\<And>r. r < size_c c \<Longrightarrow> items c (keys c (Some r)) = Some (Some r)"
    by (simp add: lru_inv_def)
  have "Some (Some p) = items c (keys c (Some p))" using a[of p] assms(2) by simp
  also have "\<dots> = items c (keys c (Some q))" by (simp only: assms(4))
  also have "\<dots> = Some (Some q)" using a[of q] assms(3) by simp
  finally show ?thesis by simp
qed

subsection \<open>The three paths of set\<close>

lemma set_c_existing:
  "items_get c k = Some p \<Longrightarrow>
   set_c c k v = (splayOnTop c (Some p))\<lparr>values_c := (values_c c)(Some p := v)\<rparr>"
  by (simp add: set_c_def Let_def)

lemma set_c_fresh:
  "items_get c k = None \<Longrightarrow> size_c c < capacity c \<Longrightarrow>
   set_c c k v =
     (let p = Some (size_c c);
          c4 = c\<lparr>size_c := size_c c + 1, items := (items c)(k \<mapsto> p),
                 keys := (keys c)(p := k), values_c := (values_c c)(p := v)\<rparr>
      in if 0 < size_c c
         then c4\<lparr>head := p, backward := ta_set (backward c) (head c) p,
                  forward := ta_set (forward c) p (head c)\<rparr>
         else c4)"
  by (simp add: set_c_def Let_def)

lemma set_c_evict:
  "items_get c k = None \<Longrightarrow> \<not> size_c c < capacity c \<Longrightarrow>
   set_c c k v =
     (let p = tail c;
          c4 = c\<lparr>tail := ta_get (backward c) p,
                 items := ((items c)(keys c p := None))(k \<mapsto> p),
                 keys := (keys c)(p := k), values_c := (values_c c)(p := v)\<rparr>
      in if 1 < size_c c
         then c4\<lparr>head := p, backward := ta_set (backward c) (head c) p,
                  forward := ta_set (forward c) p (head c)\<rparr>
         else c4)"
  by (simp add: set_c_def Let_def)

lemma lru_inv_values_update [simp]: "lru_inv (c\<lparr>values_c := f\<rparr>) ps = lru_inv c ps"
  by (simp add: lru_inv_def)

lemma set_c_inv_existing:
  assumes inv: "lru_inv c ps" and ex: "items_get c k = Some p"
  shows "lru_inv (set_c c k v) (p # remove1 p ps)"
proof -
  from ex have "items c k = Some (Some p)"
    by (auto simp: items_get_def split: option.splits)
  then have "p \<in> set ps" using lru_inv_items[OF inv] by fastforce
  then show ?thesis
    using splayOnTop_inv[OF inv] by (simp add: set_c_existing[OF ex])
qed

lemma set_c_inv_fresh:
  assumes inv: "lru_inv c ps" and nk: "items_get c k = None"
    and room: "size_c c < capacity c"
  shows "lru_inv (set_c c k v) (size_c c # ps)"
proof -
  let ?F = "cells (forward c)" and ?B = "cells (backward c)"
  let ?n = "capacity c" and ?s = "size_c c"
  let ?c' = "set_c c k v"
  from inv have len: "length ?F = ?n" "length ?B = ?n"
    and bits: "?n \<le> 2 ^ bits (forward c)" "?n \<le> 2 ^ bits (backward c)"
    and dist: "distinct ps" and sps: "set ps = {0..<?s}"
    and hd: "head c = Some (if ps = [] then 0 else hd ps)"
    and tl: "tail c = Some (if ps = [] then 0 else last ps)"
    and lnk: "linked ?F ?B ps"
    and its: "\<And>p. p < ?s \<Longrightarrow> items c (keys c (Some p)) = Some (Some p)"
    and dm: "dom (items c) = (\<lambda>p. keys c (Some p)) ` {0..<?s}"
    and c1: "?n = 1 \<longrightarrow> ?B ! 0 = 0"
    by (auto simp: lru_inv_def)
  have kd: "k \<notin> dom (items c)"
    using nk lru_inv_items_get[OF inv] by simp
  have kne: "\<And>p. p < ?s \<Longrightarrow> keys c (Some p) \<noteq> k"
    using kd dm by auto
  have ps0: "ps = [] \<longleftrightarrow> ?s = 0"
    using sps by auto
  have smod: "?s mod 2 ^ bits (backward c) = ?s"
    using room bits by auto
  have sn: "?s \<notin> set ps" using sps by simp
  have basic: "capacity ?c' = ?n" "size_c ?c' = ?s + 1"
    "bits (forward ?c') = bits (forward c)" "bits (backward ?c') = bits (backward c)"
    "length (cells (forward ?c')) = ?n" "length (cells (backward ?c')) = ?n"
    "items ?c' = (items c)(k \<mapsto> Some ?s)" "keys ?c' = (keys c)(Some ?s := k)"
    "tail ?c' = tail c"
    "head ?c' = Some ?s"
    using hd ps0 len
    by (auto simp: set_c_fresh[OF nk room] Let_def)
  have I1: "\<forall>p<size_c ?c'. items ?c' (keys ?c' (Some p)) = Some (Some p)"
    using its kne by (auto simp: basic less_Suc_eq)
  have I2: "dom (items ?c') = (\<lambda>p. keys ?c' (Some p)) ` {0..<size_c ?c'}"
    using dm by (auto simp: basic less_Suc_eq image_iff)
  have L: "linked (cells (forward ?c')) (cells (backward ?c')) (?s # ps)"
  proof (cases "ps = []")
    case True
    then show ?thesis by simp
  next
    case False
    then have pos: "0 < ?s" using ps0 by simp
    have hin: "hd ps \<in> set ps" using False by simp
    then have "hd ps < ?s" unfolding sps by simp
    then have hps: "hd ps < ?n" "hd ps \<in> set ps" using hin room by auto
    have hmod: "hd ps mod 2 ^ bits (forward c) = hd ps"
      using hps bits by auto
    have F': "cells (forward ?c') = ?F[?s := hd ps]"
      and B': "cells (backward ?c') = ?B[hd ps := ?s]"
      using hd False pos smod hmod
      by (simp_all add: set_c_fresh[OF nk room] Let_def cells_ta_set_Some)
    have "linked (?F[?s := hd ps]) (?B[hd ps := ?s]) ps"
      using lnk dist sn
      by (simp add: linked_fw_update linked_bw_update hd_notin_tl notin_butlast)
    then show ?thesis
      using False hps room len by (simp add: F' B' linked_Cons)
  qed
  have C1: "capacity ?c' = 1 \<longrightarrow> cells (backward ?c') ! 0 = 0"
  proof
    assume "capacity ?c' = 1"
    then have "?s = 0" using room by (simp add: basic)
    then have "backward ?c' = backward c"
      by (simp add: set_c_fresh[OF nk room] Let_def)
    then show "cells (backward ?c') ! 0 = 0" using c1 \<open>capacity ?c' = 1\<close> basic by simp
  qed
  have T: "tail ?c' = Some (if ?s # ps = [] then 0 else last (?s # ps))"
    using tl ps0 by (auto simp: basic)
  have S: "set (?s # ps) = {0..<size_c ?c'}" "distinct (?s # ps)"
    using sps dist by (auto simp: basic)
  show ?thesis
    unfolding lru_inv_def
    using I1 I2 L C1 T S room bits by (simp add: basic)
qed

lemma set_c_inv_evict_snoc:
  assumes inv: "lru_inv c (xs @ [t])" and nk: "items_get c k = None"
    and full: "\<not> size_c c < capacity c"
  shows "lru_inv (set_c c k v) (t # xs)"
proof -
  let ?F = "cells (forward c)" and ?B = "cells (backward c)"
  let ?n = "capacity c" and ?s = "size_c c"
  let ?c' = "set_c c k v"
  from inv have len: "length ?F = ?n" "length ?B = ?n"
    and bits: "?n \<le> 2 ^ bits (forward c)" "?n \<le> 2 ^ bits (backward c)"
    and dist: "distinct (xs @ [t])" and sps: "set (xs @ [t]) = {0..<?s}"
    and hd: "head c = Some (hd (xs @ [t]))"
    and tailc: "tail c = Some t"
    and lnk: "linked ?F ?B (xs @ [t])"
    and its: "\<And>p. p < ?s \<Longrightarrow> items c (keys c (Some p)) = Some (Some p)"
    and dm: "dom (items c) = (\<lambda>p. keys c (Some p)) ` {0..<?s}"
    and c1: "?n = 1 \<longrightarrow> ?B ! 0 = 0"
    and sz: "?s = ?n" and pos: "0 < ?n"
    using full by (auto simp: lru_inv_def)
  have "t \<in> set (xs @ [t])" by simp
  then have tb: "t < ?s" unfolding sps by simp
  then have tn: "t < ?n" using sz by simp
  have tx: "t \<notin> set xs" "distinct xs"
    using dist by auto
  have kd: "k \<notin> dom (items c)"
    using nk lru_inv_items_get[OF inv] by simp
  have kne: "\<And>p. p < ?s \<Longrightarrow> keys c (Some p) \<noteq> k"
    using kd dm by auto
  have inj: "\<And>p. p < ?s \<Longrightarrow> p \<noteq> t \<Longrightarrow> keys c (Some p) \<noteq> keys c (Some t)"
    using lru_inv_keys_inj[OF inv _ tb] by blast
  have basic: "capacity ?c' = ?n" "size_c ?c' = ?s"
    "bits (forward ?c') = bits (forward c)" "bits (backward ?c') = bits (backward c)"
    "length (cells (forward ?c')) = ?n" "length (cells (backward ?c')) = ?n"
    "items ?c' = ((items c)(keys c (Some t) := None))(k \<mapsto> Some t)"
    "keys ?c' = (keys c)(Some t := k)"
    "tail ?c' = Some (?B ! t)"
    using tailc len tn
    by (auto simp: set_c_evict[OF nk full] Let_def ta_get_Some)
  have I1: "\<forall>p<size_c ?c'. items ?c' (keys ?c' (Some p)) = Some (Some p)"
  proof (intro allI impI)
    fix p assume "p < size_c ?c'"
    then have p: "p < ?s" by (simp add: basic)
    show "items ?c' (keys ?c' (Some p)) = Some (Some p)"
    proof (cases "p = t")
      case True
      then show ?thesis by (simp add: basic)
    next
      case False
      then show ?thesis using its[OF p] kne[OF p] inj[OF p] by (simp add: basic)
    qed
  qed
  have I2: "dom (items ?c') = (\<lambda>p. keys ?c' (Some p)) ` {0..<size_c ?c'}"
  proof -
    have "dom (items ?c') = insert k (dom (items c) - {keys c (Some t)})"
      by (auto simp: basic)
    also have "dom (items c) - {keys c (Some t)} = (\<lambda>p. keys c (Some p)) ` ({0..<?s} - {t})"
      using inj dm by auto
    also have "insert k \<dots> = (\<lambda>p. keys ?c' (Some p)) ` {0..<size_c ?c'}"
      using tb by (auto simp: basic image_iff)
    finally show ?thesis .
  qed
  have S: "set (t # xs) = {0..<size_c ?c'}" "distinct (t # xs)"
    using sps tx by (auto simp: basic)
  show ?thesis
  proof (cases "xs = []")
    case True
    then have s1: "?s = 1" using lru_inv_length[OF inv] by simp
    then have t0: "t = 0" using tb by simp
    have same: "head ?c' = head c" "backward ?c' = backward c"
      using s1 by (simp_all add: set_c_evict[OF nk full] Let_def)
    show ?thesis
      unfolding lru_inv_def
      using I1 I2 S True same hd t0 c1 sz s1 pos bits len
      by (simp add: basic)
  next
    case False
    have s2: "1 < ?s"
      using lru_inv_length[OF inv] False by (cases xs) auto
    have hin: "hd xs \<in> set xs" "last xs \<in> set xs" using False by auto
    then have hne: "hd xs \<noteq> t" using tx by auto
    have "hd xs \<in> set (xs @ [t])" using hin by simp
    then have hn: "hd xs < ?n" unfolding sps using sz by simp
    have mods: "t mod 2 ^ bits (backward c) = t" "hd xs mod 2 ^ bits (forward c) = hd xs"
      using tn hn bits by auto
    have Bt: "?B ! t = last xs" and lxs: "linked ?F ?B xs"
      using lnk False by (simp_all add: linked_append)
    have F': "cells (forward ?c') = ?F[t := hd xs]"
      and B': "cells (backward ?c') = ?B[hd xs := t]"
      and H': "head ?c' = Some t"
      using hd False s2 tailc mods
      by (simp_all add: set_c_evict[OF nk full] Let_def cells_ta_set_Some)
    have "linked (?F[t := hd xs]) (?B[hd xs := t]) xs"
      using lxs tx
      by (simp add: linked_fw_update linked_bw_update hd_notin_tl notin_butlast)
    then have L: "linked (cells (forward ?c')) (cells (backward ?c')) (t # xs)"
      using False tn hn len hne by (simp add: F' B' linked_Cons)
    have n1: "?n \<noteq> 1" using s2 sz by simp
    show ?thesis
      unfolding lru_inv_def
      using I1 I2 S L H' Bt False n1 sz pos bits len
      by (simp add: basic)
  qed
qed

lemma lru_inv_nonempty: "lru_inv c ps \<Longrightarrow> \<not> size_c c < capacity c \<Longrightarrow> ps \<noteq> []"
  by (auto simp: lru_inv_def)

lemma set_c_inv_evict:
  assumes inv: "lru_inv c ps" and nk: "items_get c k = None"
    and full: "\<not> size_c c < capacity c"
  shows "lru_inv (set_c c k v) (last ps # butlast ps)"
proof -
  from lru_inv_nonempty[OF inv full] obtain xs t where ps: "ps = xs @ [t]"
    by (cases ps rule: rev_cases) auto
  show ?thesis
    using set_c_inv_evict_snoc[OF inv[unfolded ps] nk full] by (simp add: ps)
qed

lemma js_trunc_of_nat [simp]: "js_trunc (of_nat m) = int m"
  by (simp add: js_trunc_def)

lemma new_Array_of_nat: "m < 2 ^ 32 \<Longrightarrow> new_Array (Num (of_nat m)) = Inr (\<lambda>p. None)"
proof -
  assume "m < 2 ^ 32"
  then have "m \<le> 2 ^ 32 - 1" by simp
  then have "(of_nat m :: rat) \<le> of_nat (2 ^ 32 - 1)" by (simp only: of_nat_le_iff)
  then have "(of_nat m :: rat) \<le> 2 ^ 32 - 1" by simp
  then show ?thesis by (simp add: new_Array_def)
qed

lemma new_Array_Inr: "new_Array n = Inr a \<Longrightarrow> \<exists>m<2 ^ 32. n = Num (of_nat m)"
proof -
  assume a: "new_Array n = Inr a"
  then obtain q where q: "n = Num q"
    by (cases n) (auto simp: new_Array_def)
  with a have n: "q = of_int \<lfloor>q\<rfloor>" "0 \<le> q" "q \<le> 2 ^ 32 - 1"
    by (auto simp: new_Array_def split: if_splits)
  define m where "m = nat \<lfloor>q\<rfloor>"
  have "0 \<le> \<lfloor>q\<rfloor>" using n(2) by simp
  then have nm: "q = of_nat m" using n(1) by (simp add: m_def)
  have "(of_nat m :: rat) < of_nat (2 ^ 32)" using n(3) nm by simp
  then have "m < 2 ^ 32" by (simp only: of_nat_less_iff)
  then show ?thesis using nm q by blast
qed

lemma to_index_of_nat: "m < 2 ^ 32 \<Longrightarrow> to_index (Num (of_nat m)) = Inr m"
  by (simp add: to_index_def)

lemma new_PointerArray_of_nat:
  "m < 2 ^ 32 \<Longrightarrow>
   new_PointerArray heap w (Num (of_nat m)) =
     (if heap < m * (w div 8) then Inl RangeError
      else Inr (\<lparr>bits = w, cells = replicate m 0, extra = None\<rparr>, heap - m * (w div 8)))"
  by (simp add: new_PointerArray_def to_index_of_nat)

lemma nat_of_number_of_nat [simp]: "nat_of_number (Num (of_nat m)) = m"
  by (simp add: nat_of_number_def)

text \<open>
  The constructor succeeds for a natural number below \<open>2^32\<close> exactly when the heap holds
  the two typed arrays, and for nothing else.
\<close>

lemma LRUCache_of_nat_iff:
  assumes "m < 2 ^ 32"
  shows "LRUCache heap (Num (of_nat m)) =
           (if 2 * (m * (getPointerArray (Num (of_nat m)) div 8)) \<le> heap then Inr (fresh m)
            else Inl RangeError)"
proof -
  let ?b = "m * (getPointerArray (Num (of_nat m)) div 8)"
  have "2 * ?b \<le> heap \<longleftrightarrow> \<not> heap < ?b \<and> \<not> heap - ?b < ?b" by arith
  then show ?thesis
    using assms
    by (simp add: LRUCache_def Let_def new_PointerArray_of_nat new_Array_of_nat clear_def
          fresh_def)
qed

lemma LRUCache_of_nat:
  "m < 2 ^ 32 \<Longrightarrow> 2 * (m * (getPointerArray (Num (of_nat m)) div 8)) \<le> heap \<Longrightarrow>
   LRUCache heap (Num (of_nat m)) = Inr (fresh m)"
  by (simp add: LRUCache_of_nat_iff)

lemma LRUCache_zero: "LRUCache heap (Num 0) = Inr (fresh 0)"
  using LRUCache_of_nat[of 0 heap] by simp

lemma LRUCache_Inr:
  assumes "LRUCache heap n = Inr c"
  shows "\<exists>m<2 ^ 32. n = Num (of_nat m) \<and> c = fresh m"
proof -
  from assms obtain ks :: "unit jsarray" where "new_Array n = Inr ks"
    by (auto simp: LRUCache_def Let_def new_Array_def split: sum.splits jsnumber.splits if_splits)
  then obtain m where m: "m < 2 ^ 32" "n = Num (of_nat m)"
    using new_Array_Inr by blast
  then have "c = fresh m"
    using assms by (simp add: LRUCache_of_nat_iff split: if_splits)
  then show ?thesis using m by blast
qed

lemma getPointerArray_fits: "m < 2 ^ 32 \<Longrightarrow> m \<le> 2 ^ getPointerArray (Num (of_nat m))"
proof -
  assume m: "m < 2 ^ 32"
  have a: "(of_nat m :: rat) \<le> 2 ^ 8 \<longleftrightarrow> m \<le> 2 ^ 8"
    using of_nat_le_iff[of m "2 ^ 8", where ?'a = rat] by simp
  have b: "(of_nat m :: rat) \<le> 2 ^ 16 \<longleftrightarrow> m \<le> 2 ^ 16"
    using of_nat_le_iff[of m "2 ^ 16", where ?'a = rat] by simp
  show ?thesis using m by (simp add: getPointerArray_def a b)
qed

lemma lru_inv_LRUCache:
  assumes "LRUCache heap (Num n) = Inr c" and "0 < n"
  shows "lru_inv c []"
proof -
  from assms(1) obtain m where m: "m < 2 ^ 32" "n = of_nat m" "c = fresh m"
    using LRUCache_Inr by blast
  have pos: "0 < m" using assms(2) m by simp
  show ?thesis
    using m pos getPointerArray_fits[OF m(1)]
    by (auto simp: lru_inv_def fresh_def)
qed

lemma lru_inv_clear: "lru_inv c ps \<Longrightarrow> lru_inv (clear c) []"
  by (simp add: lru_inv_def clear_def)

lemma lru_inv_get:
  assumes inv: "lru_inv c ps"
  shows "lru_inv (snd (get c k))
           (case items_get c k of None \<Rightarrow> ps | Some p \<Rightarrow> p # remove1 p ps)"
proof (cases "items_get c k")
  case None
  then show ?thesis using inv by (simp add: get_def)
next
  case (Some p)
  then have "items c k = Some (Some p)"
    by (auto simp: items_get_def split: option.splits)
  then have "p \<in> set ps" using lru_inv_items[OF inv] by fastforce
  then show ?thesis
    using splayOnTop_inv[OF inv] Some by (simp add: get_def Let_def)
qed

lemma lru_inv_set_c:
  assumes inv: "lru_inv c ps"
  shows "lru_inv (set_c c k v)
           (case items_get c k of
              Some p \<Rightarrow> p # remove1 p ps
            | None \<Rightarrow> if size_c c < capacity c then size_c c # ps
                       else last ps # butlast ps)"
  using set_c_inv_existing[OF inv] set_c_inv_fresh[OF inv] set_c_inv_evict[OF inv]
  by (auto split: option.splits)

subsection \<open>Consuming the iterator\<close>

declare consume.simps [simp del]

lemma consume_done: "it_l it \<le> it_i it \<Longrightarrow> consume it = []"
  by (subst consume.simps) (simp add: entries_next_def)

lemma consume_step:
  "it_i it < it_l it \<Longrightarrow>
   consume it =
     (it_keys it (it_pointer it), it_values it (it_pointer it)) #
     consume (it\<lparr>it_i := it_i it + 1,
                 it_pointer := (if it_i it + 1 < it_l it
                                then ta_get (it_forward it) (it_pointer it)
                                else it_pointer it)\<rparr>)"
  by (subst consume.simps) (simp add: entries_next_def Let_def)

lemma length_consume: "length (consume it) = it_l it - it_i it"
proof (induction "it_l it - it_i it" arbitrary: it)
  case 0
  then show ?case by (simp add: consume_done)
next
  case (Suc n)
  then have lt: "it_i it < it_l it" by simp
  let ?it' = "it\<lparr>it_i := it_i it + 1,
                 it_pointer := (if it_i it + 1 < it_l it
                                then ta_get (it_forward it) (it_pointer it)
                                else it_pointer it)\<rparr>"
  have "n = it_l ?it' - it_i ?it'" using Suc(2) by simp
  from Suc(1)[OF this] show ?case using Suc(2) by (simp add: consume_step[OF lt])
qed

lemma consume_walk:
  assumes "rest \<noteq> []" and "it_pointer it = Some (hd rest)"
    and "it_i it + length rest = it_l it"
    and "linked (cells (it_forward it)) bw rest"
    and "\<forall>p\<in>set rest. p < length (cells (it_forward it))"
  shows "consume it = map (\<lambda>p. (it_keys it (Some p), it_values it (Some p))) rest"
  using assms
proof (induction rest arbitrary: it)
  case Nil
  then show ?case by simp
next
  case (Cons p rest)
  have lt: "it_i it < it_l it" using Cons.prems(3) by simp
  show ?case
  proof (cases "rest = []")
    case True
    then show ?thesis
      using Cons.prems by (simp add: consume_step[OF lt] consume_done)
  next
    case False
    let ?it' = "it\<lparr>it_i := it_i it + 1,
                   it_pointer := (if it_i it + 1 < it_l it
                                  then ta_get (it_forward it) (it_pointer it)
                                  else it_pointer it)\<rparr>"
    have more: "it_i it + 1 < it_l it" using Cons.prems(3) False by (cases rest) auto
    have nxt: "cells (it_forward it) ! p = hd rest"
      using Cons.prems(4) False by (simp add: linked_Cons)
    have "it_pointer ?it' = Some (hd rest)"
      using more Cons.prems(2,5) nxt by (simp add: ta_get_Some)
    moreover have "it_i ?it' + length rest = it_l ?it'" using Cons.prems(3) by simp
    moreover have "linked (cells (it_forward ?it')) bw rest"
      using Cons.prems(4) False by (simp add: linked_Cons)
    moreover have "\<forall>q\<in>set rest. q < length (cells (it_forward ?it'))"
      using Cons.prems(5) by simp
    ultimately have "consume ?it' =
        map (\<lambda>q. (it_keys ?it' (Some q), it_values ?it' (Some q))) rest"
      using Cons.IH[OF False] by blast
    then show ?thesis
      using Cons.prems(2) by (simp add: consume_step[OF lt])
  qed
qed

declare drain.simps [simp del]

lemma entries_next_captured:
  "it_keys (snd (entries_next it)) = it_keys it"
  "it_values (snd (entries_next it)) = it_values it"
  "it_forward (snd (entries_next it)) = it_forward it"
  "it_l (snd (entries_next it)) = it_l it"
  by (simp_all add: entries_next_def Let_def)

lemma drain_captured:
  "it_keys (drain it) = it_keys it \<and> it_values (drain it) = it_values it \<and>
   it_forward (drain it) = it_forward it \<and> it_l (drain it) = it_l it \<and>
   fst (entries_next (drain it)) = Done"
proof (induction it rule: drain.induct)
  case (1 it)
  show ?case
  proof (cases "fst (entries_next it)")
    case Done
    then have "drain it = snd (entries_next it)" by (subst drain.simps) simp
    moreover have "snd (entries_next it) = it"
      using Done by (simp add: entries_next_def Let_def split: if_splits)
    ultimately show ?thesis using Done by simp
  next
    case (Yield k v)
    then have "drain it = drain (snd (entries_next it))" by (subst drain.simps) simp
    then show ?thesis using 1[OF Yield] by (simp add: entries_next_captured)
  qed
qed

lemma lru_inv_entries:
  assumes inv: "lru_inv c ps"
  shows "consume (fst (entries c)) = map (\<lambda>p. (keys c (Some p), values_c c (Some p))) ps"
proof (cases "ps = []")
  case True
  then have "size_c c = 0" using lru_inv_length[OF inv] by simp
  then show ?thesis using True by (simp add: entries_def consume_done)
next
  case False
  have "\<forall>p\<in>set ps. p < length (cells (forward c))"
    using inv by (auto simp: lru_inv_def)
  moreover have "linked (cells (forward c)) (cells (backward c)) ps"
    and "head c = Some (hd ps)"
    using inv False by (auto simp: lru_inv_def)
  ultimately show ?thesis
    using consume_walk[of ps "fst (entries c)" "cells (backward c)"] False lru_inv_length[OF inv]
    by (simp add: entries_def)
qed

section \<open>The methods on the list of entries\<close>

lemma reachable_inv: "reachable c \<Longrightarrow> \<exists>ps. lru_inv c ps"
proof (induction rule: reachable.induct)
  case (reach_new cap c)
  then show ?case using lru_inv_LRUCache by blast
next
  case (reach_set c key val)
  then show ?case using lru_inv_set_c by blast
next
  case (reach_get c key)
  then show ?case using lru_inv_get by blast
next
  case (reach_has c key)
  then show ?case by (simp add: has_def)
next
  case (reach_clear c)
  then show ?case using lru_inv_clear by blast
next
  case (reach_entries c)
  then show ?case by (simp add: entries_def)
qed

lemma lru_inv_inj: "lru_inv c ps \<Longrightarrow> inj_on (\<lambda>q. keys c (Some q)) (set ps)"
proof (rule inj_onI)
  fix x y
  assume inv: "lru_inv c ps" and "x \<in> set ps" "y \<in> set ps"
    and eq: "keys c (Some x) = keys c (Some y)"
  then have "x < size_c c" "y < size_c c" by (auto simp: lru_inv_def)
  then show "x = y" using lru_inv_keys_inj[OF inv _ _ eq] by simp
qed

lemma map_remove1_filter:
  assumes "distinct ps" and "inj_on g (set ps)" and "p \<in> set ps"
  shows "map (\<lambda>q. (g q, h q)) (remove1 p ps) =
         filter (\<lambda>e. fst e \<noteq> g p) (map (\<lambda>q. (g q, h q)) ps)"
  using assms
proof (induction ps)
  case Nil
  then show ?case by simp
next
  case (Cons q ps)
  show ?case
  proof (cases "q = p")
    case True
    have "\<forall>r\<in>set ps. g r \<noteq> g p"
      using Cons.prems True by (auto simp: inj_on_def)
    then have "filter (\<lambda>e. fst e \<noteq> g p) (map (\<lambda>q. (g q, h q)) ps) = map (\<lambda>q. (g q, h q)) ps"
      by (induction ps) auto
    then show ?thesis using True by simp
  next
    case False
    then have "g q \<noteq> g p" using Cons.prems by (auto simp: inj_on_def)
    moreover have "map (\<lambda>q. (g q, h q)) (remove1 p ps) =
         filter (\<lambda>e. fst e \<noteq> g p) (map (\<lambda>q. (g q, h q)) ps)"
      using Cons.IH Cons.prems False by (auto simp: inj_on_def)
    ultimately show ?thesis using False by simp
  qed
qed

lemma entries_list_inv:
  "lru_inv c ps \<Longrightarrow> entries_list c = map (\<lambda>p. (keys c (Some p), values_c c (Some p))) ps"
  by (simp add: entries_list_def lru_inv_entries)

lemma length_entries_list: "length (entries_list c) = size_c c"
  by (simp add: entries_list_def length_consume entries_def)

text \<open>A successful get, on the list of entries.\<close>

lemma get_present:
  assumes inv: "lru_inv c ps" and ex: "items_get c k = Some p"
  shows "fst (get c k) = values_c c (Some p)"
    and "entries_list (snd (get c k)) =
           (k, values_c c (Some p)) # filter (\<lambda>e. fst e \<noteq> k) (entries_list c)"
    and "p \<in> set ps" and "keys c (Some p) = k"
proof -
  from ex have it: "items c k = Some (Some p)"
    by (auto simp: items_get_def split: option.splits)
  then show p: "p \<in> set ps" and kp: "keys c (Some p) = k"
    using lru_inv_items[OF inv it] by auto
  show "fst (get c k) = values_c c (Some p)"
    using ex by (simp add: get_def Let_def)
  have inv': "lru_inv (snd (get c k)) (p # remove1 p ps)"
    using lru_inv_get[OF inv, of k] ex by simp
  have d: "distinct ps" using inv by (simp add: lru_inv_def)
  have "entries_list (snd (get c k)) =
          map (\<lambda>q. (keys c (Some q), values_c c (Some q))) (p # remove1 p ps)"
    using entries_list_inv[OF inv'] ex by (simp add: get_def Let_def)
  also have "\<dots> = (k, values_c c (Some p)) #
        filter (\<lambda>e. fst e \<noteq> k) (map (\<lambda>q. (keys c (Some q), values_c c (Some q))) ps)"
    using map_remove1_filter[OF d lru_inv_inj[OF inv] p, of "\<lambda>q. values_c c (Some q)"] kp
    by simp
  finally show "entries_list (snd (get c k)) =
           (k, values_c c (Some p)) # filter (\<lambda>e. fst e \<noteq> k) (entries_list c)"
    by (simp add: entries_list_inv[OF inv])
qed

lemma lru_inv_has:
  assumes inv: "lru_inv c ps"
  shows "fst (has c k) \<longleftrightarrow> k \<in> fst ` set (entries_list c)"
proof -
  have "dom (items c) = (\<lambda>p. keys c (Some p)) ` set ps"
    using inv by (simp add: lru_inv_def)
  then show ?thesis
    by (simp add: has_def entries_list_inv[OF inv] image_image)
qed

lemma lru_inv_has_items_get:
  "lru_inv c ps \<Longrightarrow> fst (has c k) \<longleftrightarrow> items_get c k \<noteq> None"
  using lru_inv_items_get[of c ps k] by (simp add: has_def)

lemma filter_fst_notin:
  "k \<notin> g ` set ps \<Longrightarrow> filter (\<lambda>e. fst e \<noteq> k) (map (\<lambda>q. (g q, h q)) ps) = map (\<lambda>q. (g q, h q)) ps"
  by (induction ps) auto

lemma map_upd_notin:
  "a \<notin> set ps \<Longrightarrow>
   map (\<lambda>q. ((g(Some a := x)) (Some q), (h(Some a := y)) (Some q))) ps =
   map (\<lambda>q. (g (Some q), h (Some q))) ps"
  by (induction ps) auto

text \<open>What set stores, on each of its three paths.\<close>

lemma set_c_stored:
  assumes inv: "lru_inv c ps"
  shows "\<exists>p. items_get (set_c c k v) k = Some p \<and> values_c (set_c c k v) (Some p) = v"
proof (cases "items_get c k")
  case (Some p)
  then show ?thesis
    by (auto simp: set_c_existing[OF Some] items_get_def)
next
  case None
  show ?thesis
  proof (cases "size_c c < capacity c")
    case True
    then show ?thesis
      by (auto simp: set_c_fresh[OF None True] Let_def items_get_def)
  next
    case False
    then have "ps \<noteq> []" using lru_inv_nonempty[OF inv] by simp
    then have "tail c = Some (last ps)" using inv by (simp add: lru_inv_def)
    then show ?thesis
      by (auto simp: set_c_evict[OF None False] Let_def items_get_def)
  qed
qed

lemma set_c_entries:
  assumes inv: "lru_inv c ps"
  shows "entries_list (set_c c k v) =
           take (capacity c) ((k, v) # filter (\<lambda>e. fst e \<noteq> k) (entries_list c))"
proof -
  let ?f = "\<lambda>q. (keys c (Some q), values_c c (Some q))"
  let ?c' = "set_c c k v"
  have el: "entries_list c = map ?f ps" by (rule entries_list_inv[OF inv])
  have d: "distinct ps" and len: "length ps = size_c c" and le: "size_c c \<le> capacity c"
    using inv lru_inv_length[OF inv] by (auto simp: lru_inv_def)
  show ?thesis
  proof (cases "items_get c k")
    case (Some p)
    then have it: "items c k = Some (Some p)"
      by (auto simp: items_get_def split: option.splits)
    then have p: "p \<in> set ps" and kp: "keys c (Some p) = k"
      using lru_inv_items[OF inv it] by auto
    have inv': "lru_inv ?c' (p # remove1 p ps)" by (rule set_c_inv_existing[OF inv Some])
    have np: "p \<notin> set (remove1 p ps)" using d by simp
    have "entries_list ?c' =
        map (\<lambda>q. (keys c (Some q), ((values_c c)(Some p := v)) (Some q))) (p # remove1 p ps)"
      using entries_list_inv[OF inv'] by (simp add: set_c_existing[OF Some])
    also have "\<dots> = (k, v) # map ?f (remove1 p ps)"
      using np kp map_upd_notin[of p "remove1 p ps" "keys c" "keys c (Some p)" "values_c c" v]
      by simp
    also have "map ?f (remove1 p ps) = filter (\<lambda>e. fst e \<noteq> k) (map ?f ps)"
      using map_remove1_filter[OF d lru_inv_inj[OF inv] p, of "\<lambda>q. values_c c (Some q)"] kp
      by simp
    finally have eq: "entries_list ?c' = (k, v) # filter (\<lambda>e. fst e \<noteq> k) (entries_list c)"
      by (simp add: el)
    have "length (entries_list ?c') \<le> capacity c"
      using le by (simp add: length_entries_list set_c_existing[OF Some])
    then show ?thesis by (simp add: eq)
  next
    case None
    have kd: "k \<notin> dom (items c)" using None lru_inv_items_get[OF inv] by simp
    then have kn: "k \<notin> (\<lambda>q. keys c (Some q)) ` set ps"
      using inv by (simp add: lru_inv_def)
    have nofilter: "filter (\<lambda>e. fst e \<noteq> k) (entries_list c) = map ?f ps"
      using filter_fst_notin[OF kn, of "\<lambda>q. values_c c (Some q)"] by (simp add: el)
    show ?thesis
    proof (cases "size_c c < capacity c")
      case True
      have inv': "lru_inv ?c' (size_c c # ps)" by (rule set_c_inv_fresh[OF inv None True])
      have ns: "size_c c \<notin> set ps" using inv by (simp add: lru_inv_def)
      have kv: "keys ?c' = (keys c)(Some (size_c c) := k)"
          "values_c ?c' = (values_c c)(Some (size_c c) := v)"
        by (simp_all add: set_c_fresh[OF None True] Let_def)
      have "entries_list ?c' = (k, v) # map ?f ps"
        using entries_list_inv[OF inv'] map_upd_notin[OF ns, of "keys c" k "values_c c" v]
        by (simp add: kv)
      then show ?thesis using True len by (simp add: nofilter)
    next
      case False
      then have ne: "ps \<noteq> []" using lru_inv_nonempty[OF inv] by simp
      then have tl: "tail c = Some (last ps)" using inv by (simp add: lru_inv_def)
      have inv': "lru_inv ?c' (last ps # butlast ps)" by (rule set_c_inv_evict[OF inv None False])
      have nt: "last ps \<notin> set (butlast ps)" using d ne by (rule last_notin_butlast)
      have kv: "keys ?c' = (keys c)(Some (last ps) := k)"
          "values_c ?c' = (values_c c)(Some (last ps) := v)"
        using tl by (simp_all add: set_c_evict[OF None False] Let_def)
      have "entries_list ?c' = (k, v) # map ?f (butlast ps)"
        using entries_list_inv[OF inv'] map_upd_notin[OF nt, of "keys c" k "values_c c" v]
        by (simp add: kv)
      moreover have "capacity c = length ps" using False le len by simp
      ultimately show ?thesis
        using ne by (simp add: nofilter map_butlast butlast_conv_take take_Cons' take_map)
    qed
  qed
qed

lemma capacity_set_c [simp]: "capacity (set_c c k v) = capacity c"
  by (simp add: set_c_def Let_def split: prod.splits)

lemma capacity_get [simp]: "capacity (snd (get c k)) = capacity c"
  by (simp add: get_def Let_def)

lemma map_fst_filter: "map fst (filter (\<lambda>e. fst e \<noteq> k) es) = removeAll k (map fst es)"
  by (induction es) auto

lemma remdups_snoc: "remdups (ts @ [k]) = removeAll k (remdups ts) @ [k]"
  by (induction ts) auto

lemma take_removeAll_take:
  "distinct L \<Longrightarrow> take n (removeAll k (take (Suc n) L)) = take n (removeAll k L)"
proof (induction L arbitrary: n)
  case Nil
  then show ?case by simp
next
  case (Cons x L)
  show ?case
  proof (cases "x = k")
    case True
    then have "k \<notin> set L" using Cons.prems by simp
    then have "k \<notin> set (take n L)" by (auto dest: in_set_takeD)
    then show ?thesis using True \<open>k \<notin> set L\<close> by simp
  next
    case False
    then show ?thesis using Cons by (cases n) auto
  qed
qed

lemma removeAll_rev: "removeAll k (rev xs) = rev (removeAll k xs)"
  by (simp add: removeAll_filter_not_eq rev_filter)

lemma recent_snoc: "recent n (ts @ [k]) = take n (k # removeAll k (recent n ts))"
proof (cases n)
  case 0
  then show ?thesis by (simp add: recent_def)
next
  case (Suc m)
  have "distinct (rev (remdups ts))" by simp
  from take_removeAll_take[OF this, of m k]
  show ?thesis
    by (simp add: recent_def Suc remdups_snoc removeAll_rev)
qed

lemma touch_set_c:
  assumes inv: "lru_inv c ps"
  shows "map fst (entries_list (set_c c k v)) =
           take (capacity c) (k # removeAll k (map fst (entries_list c)))"
  by (simp add: set_c_entries[OF inv] take_map[symmetric] map_fst_filter)

lemma touch_get:
  assumes inv: "lru_inv c ps" and ex: "items_get c k = Some p"
  shows "map fst (entries_list (snd (get c k))) =
           take (capacity c) (k # removeAll k (map fst (entries_list c)))"
proof -
  have "lru_inv (snd (get c k)) (p # remove1 p ps)"
    using lru_inv_get[OF inv, of k] ex by simp
  then have "size_c (snd (get c k)) \<le> capacity c" by (simp add: lru_inv_def)
  then have "length (entries_list (snd (get c k))) \<le> capacity c"
    by (simp add: length_entries_list)
  moreover have "length (removeAll k (map fst (entries_list c))) =
      length (filter (\<lambda>e. fst e \<noteq> k) (entries_list c))"
    by (simp add: map_fst_filter[symmetric])
  ultimately have "length (k # removeAll k (map fst (entries_list c))) \<le> capacity c"
    by (simp add: get_present(2)[OF inv ex])
  then show ?thesis
    by (simp add: get_present(2)[OF inv ex] map_fst_filter)
qed

lemma run_recent:
  assumes "lru_inv c ps" and "map fst (entries_list c) = recent (capacity c) ts"
  shows "\<exists>ps'. lru_inv (run c ops) ps' \<and> capacity (run c ops) = capacity c \<and>
           map fst (entries_list (run c ops)) = recent (capacity c) (ts @ touched c ops)"
  using assms
proof (induction ops arbitrary: c ps ts)
  case Nil
  then show ?case by auto
next
  case (Cons a ops)
  show ?case
  proof (cases a)
    case (Set k v)
    have 1: "lru_inv (set_c c k v)
           (case items_get c k of
              Some p \<Rightarrow> p # remove1 p ps
            | None \<Rightarrow> if size_c c < capacity c then size_c c # ps
                       else last ps # butlast ps)"
      by (rule lru_inv_set_c[OF Cons.prems(1)])
    have 2: "map fst (entries_list (set_c c k v)) = recent (capacity (set_c c k v)) (ts @ [k])"
      by (simp add: touch_set_c[OF Cons.prems(1)] recent_snoc Cons.prems(2))
    from Cons.IH[OF 1 2] show ?thesis by (simp add: Set)
  next
    case (Get k)
    show ?thesis
    proof (cases "items_get c k")
      case None
      then have "snd (get c k) = c" by (simp add: get_def)
      then show ?thesis using Cons.IH[OF Cons.prems] None by (simp add: Get)
    next
      case (Some p)
      have 1: "lru_inv (snd (get c k)) (p # remove1 p ps)"
        using lru_inv_get[OF Cons.prems(1), of k] Some by simp
      have 2: "map fst (entries_list (snd (get c k))) =
                 recent (capacity (snd (get c k))) (ts @ [k])"
        by (simp add: touch_get[OF Cons.prems(1) Some] recent_snoc Cons.prems(2))
      from Cons.IH[OF 1 2] show ?thesis using Some by (simp add: Get)
    qed
  qed
qed

lemma size_c_set_c_evict:
  "items_get c k = None \<Longrightarrow> \<not> size_c c < capacity c \<Longrightarrow> size_c (set_c c k v) = size_c c"
  by (simp add: set_c_evict Let_def)

lemma get_twice: "snd (get (snd (get c k)) k) = snd (get c k)"
proof (cases "items_get c k")
  case None
  then show ?thesis by (simp add: get_def)
next
  case (Some p)
  have 1: "snd (get c k) = splayOnTop c (Some p)" using Some by (simp add: get_def Let_def)
  have "items_get (splayOnTop c (Some p)) k = Some p"
    using Some by (simp add: items_get_def)
  then have "snd (get (splayOnTop c (Some p)) k) = splayOnTop (splayOnTop c (Some p)) (Some p)"
    by (simp add: get_def Let_def)
  also have "\<dots> = splayOnTop c (Some p)"
    using splayOnTop_head[of "splayOnTop c (Some p)"] by simp
  finally show ?thesis by (simp add: 1)
qed

subsection \<open>The concrete scenario\<close>

lemma reachable_run: "reachable c \<Longrightarrow> reachable (run c ops)"
proof (induction ops arbitrary: c)
  case Nil
  then show ?case by simp
next
  case (Cons a ops)
  then show ?case by (cases a) (auto intro: reach_set reach_get)
qed

lemma reachable_fresh: "0 < m \<Longrightarrow> m < 2 ^ 32 \<Longrightarrow> reachable (fresh m)"
  using LRUCache_of_nat[of m "2 * (m * (getPointerArray (Num (of_nat m)) div 8))"]
  by (auto intro: reach_new)

lemma reachable_demo: "reachable demo"
  unfolding demo_def by (rule reachable_run, rule reachable_fresh) simp_all

text \<open>The definitions a concrete run unfolds.\<close>

lemmas eval_simps = set_c_def get_def has_def splayOnTop_def items_get_def ta_get_def ta_set_def
  to_uint_def fresh_def getPointerArray_def Let_def recent_def entries_list_def entries_def
  clear_def

lemma demo_state:
  "size_c demo = 3" "capacity demo = 3" "head demo = Some 2" "tail demo = Some 0"
  "keys demo (Some 0) = Some ''a''" "keys demo (Some 2) = Some ''c''"
  "values_c demo (Some 0) = Some 1"
  "\<not> fst (has demo (Some ''d''))" "fst (has demo (Some ''a''))"
  "items demo (Some ''d'') = None"
  by (simp_all add: demo_def eval_simps)

lemma demo_entries:
  "entries_list demo = [(Some ''c'', Some 3), (Some ''b'', Some 2), (Some ''a'', Some 1)]"
  by (simp add: demo_def eval_simps consume_step consume_done)

lemma demo_get:
  "fst (get demo (Some ''a'')) = Some 1"
  by (simp add: demo_def eval_simps)

lemma zero1_state:
  "size_c zero1 = 0" "capacity zero1 = 0" "head zero1 = Some 0" "tail zero1 = None"
  "items zero1 (Some ''x'') = Some (Some 0)" "items zero1 (Some ''y'') = None"
  "keys zero1 (Some 0) = Some ''x''" "values_c zero1 (Some 0) = Some 1"
  "fst (has zero1 (Some ''x''))" "\<not> fst (has zero1 (Some ''y''))"
  by (simp_all add: zero1_def eval_simps)

lemma zero2_state:
  "size_c zero2 = 0" "capacity zero2 = 0" "head zero2 = Some 0" "tail zero2 = None"
  "items zero2 (Some ''x'') = Some (Some 0)" "items zero2 (Some ''y'') = Some None"
  "items zero2 (Some ''z'') = None"
  "keys zero2 (Some 0) = Some ''x''" "keys zero2 None = Some ''y''"
  "fst (has zero2 (Some ''x''))" "fst (has zero2 (Some ''y''))"
  "\<not> fst (has zero2 (Some ''z''))"
  by (simp_all add: zero2_def zero1_def eval_simps)

lemma zero_entries: "entries_list zero1 = []" "entries_list zero2 = []"
  by (simp_all add: entries_list_def entries_def consume_done zero1_state zero2_state)

section \<open>The claims\<close>

text \<open>
  C1. For every sequence of set and get operations on a cache constructed with a positive
  capacity, the size never exceeds the capacity, and the resident keys (those for which
  has answers true) are the capacity most recently touched distinct keys, where a key is
  touched when set is called with it (a new key or an update) or get finds it. Moreover
  entries yields the resident keys in that order, the most recently touched first.
\<close>

theorem lru_resident_keys:
  assumes "LRUCache heap (Num cap) = Inr c0" and "0 < cap"
  shows "size_c (run c0 ops) \<le> capacity (run c0 ops) \<and>
         capacity (run c0 ops) = capacity c0 \<and>
         {k. fst (has (run c0 ops) k)} = set (recent (capacity c0) (touched c0 ops)) \<and>
         map fst (entries_list (run c0 ops)) = recent (capacity c0) (touched c0 ops)"
proof -
  have inv0: "lru_inv c0 []" by (rule lru_inv_LRUCache[OF assms])
  have "map fst (entries_list c0) = recent (capacity c0) []"
    by (simp add: entries_list_inv[OF inv0] recent_def)
  from run_recent[OF inv0 this, of ops] obtain ps' where
    inv: "lru_inv (run c0 ops) ps'" and cap: "capacity (run c0 ops) = capacity c0"
    and ord: "map fst (entries_list (run c0 ops)) = recent (capacity c0) (touched c0 ops)"
    by auto
  have "{k. fst (has (run c0 ops) k)} = fst ` set (entries_list (run c0 ops))"
    using lru_inv_has[OF inv] by auto
  also have "\<dots> = set (map fst (entries_list (run c0 ops)))" by simp
  finally have "{k. fst (has (run c0 ops) k)} = set (recent (capacity c0) (touched c0 ops))"
    by (simp only: ord)
  moreover have "size_c (run c0 ops) \<le> capacity (run c0 ops)"
    using inv by (simp add: lru_inv_def)
  ultimately show ?thesis using cap ord by simp
qed

theorem lru_resident_keys_witness:
  "LRUCache 64 (Num 2) = Inr (fresh 2 :: (nat, nat) cache) \<and> (0::rat) < 2 \<and>
   size_c (run (fresh 2 :: (nat, nat) cache)
             [Set (Some 1) (Some 10), Set (Some 2) (Some 20), Get (Some 1), Get (Some 7),
              Set (Some 3) (Some 30)]) \<le> 2 \<and>
   {k. fst (has (run (fresh 2 :: (nat, nat) cache)
             [Set (Some 1) (Some 10), Set (Some 2) (Some 20), Get (Some 1), Get (Some 7),
              Set (Some 3) (Some 30)]) k)} = {Some 3, Some 1}"
proof -
  let ?w = "fresh 2 :: (nat, nat) cache"
  let ?ops = "[Set (Some 1) (Some 10), Set (Some 2) (Some 20), Get (Some 1), Get (Some 7),
              Set (Some 3) (Some 30)] :: (nat, nat) op list"
  have a: "LRUCache 64 (Num 2) = Inr ?w"
    using LRUCache_of_nat[of 2 64] by (simp add: getPointerArray_def)
  have b: "(0::rat) < 2" by simp
  have t: "touched ?w ?ops = [Some 1, Some 2, Some 1, Some 3]"
    by (simp add: eval_simps)
  have c: "capacity ?w = 2" by (simp add: fresh_def)
  have r: "set (recent 2 [Some 1, Some 2, Some 1, Some (3::nat)]) = {Some 3, Some 1}"
    by (simp add: recent_def)
  from lru_resident_keys[OF a b, of ?ops]
  have 1: "size_c (run ?w ?ops) \<le> capacity (run ?w ?ops)"
    and 2: "capacity (run ?w ?ops) = capacity ?w"
    and 3: "{k. fst (has (run ?w ?ops) k)} = set (recent (capacity ?w) (touched ?w ?ops))"
    by blast+
  have 4: "size_c (run ?w ?ops) \<le> 2" using 1 2 c by linarith
  have 5: "{k. fst (has (run ?w ?ops) k)} = {Some 3, Some 1}"
    using 3 r by (simp only: t c)
  show ?thesis using a b 4 5 by blast
qed

text \<open>
  C2, as amended. In a reachable state, that is in a cache constructed with a positive
  capacity: when the size equals the capacity and set is called with a key that is not
  present, the entry at the tail, which is the least recently used one (the last that
  entries yields), is evicted: its key leaves the key index, so has answers false for it;
  its slot is reused for the new key and value; the size stays the same; and the new
  entry comes first. The operation cannot fail: \<open>set_c\<close> has no error result, as the
  source has no throw on this path.
\<close>

theorem set_evicts_tail:
  assumes "reachable c" and "size_c c = capacity c" and "\<not> fst (has c k)"
  shows "tail c \<noteq> None \<and>
         last (entries_list c) = (keys c (tail c), values_c c (tail c)) \<and>
         \<not> fst (has (set_c c k v) (keys c (tail c))) \<and>
         fst (has (set_c c k v) k) \<and>
         items (set_c c k v) k = Some (tail c) \<and>
         keys (set_c c k v) (tail c) = k \<and>
         values_c (set_c c k v) (tail c) = v \<and>
         size_c (set_c c k v) = size_c c \<and>
         entries_list (set_c c k v) = (k, v) # butlast (entries_list c)"
proof -
  from assms(1) obtain ps where inv: "lru_inv c ps" using reachable_inv by blast
  have full: "\<not> size_c c < capacity c" using assms(2) by simp
  have nk: "items_get c k = None"
    using assms(3) lru_inv_has_items_get[OF inv, of k] by simp
  have kd: "k \<notin> dom (items c)" using assms(3) by (simp add: has_def)
  have ne: "ps \<noteq> []" by (rule lru_inv_nonempty[OF inv full])
  then have tl: "tail c = Some (last ps)" using inv by (simp add: lru_inv_def)
  have lt: "last ps < size_c c" using inv ne by (auto simp: lru_inv_def)
  have el: "entries_list c = map (\<lambda>p. (keys c (Some p), values_c c (Some p))) ps"
    by (rule entries_list_inv[OF inv])
  have len: "length (entries_list c) = capacity c"
    using assms(2) by (simp add: length_entries_list)
  have tk: "items c (keys c (Some (last ps))) = Some (Some (last ps))"
    using inv lt by (simp add: lru_inv_def)
  then have kt: "keys c (Some (last ps)) \<noteq> k" using kd by auto
  have 1: "last (entries_list c) = (keys c (tail c), values_c c (tail c))"
    using ne by (simp add: el tl last_map)
  have flds: "items (set_c c k v) = ((items c)(keys c (tail c) := None))(k \<mapsto> tail c)"
      "keys (set_c c k v) = (keys c)(tail c := k)"
      "values_c (set_c c k v) = (values_c c)(tail c := v)"
    by (simp_all add: set_c_evict[OF nk full] Let_def)
  have nofilter: "filter (\<lambda>e. fst e \<noteq> k) (entries_list c) = entries_list c"
    using kd lru_inv_has[OF inv, of k] by (auto simp: has_def filter_id_conv)
  have pos: "0 < capacity c" using inv by (simp add: lru_inv_def)
  have "entries_list (set_c c k v) = take (capacity c) ((k, v) # entries_list c)"
    by (simp add: set_c_entries[OF inv] nofilter)
  also have "\<dots> = (k, v) # butlast (entries_list c)"
    using pos len by (simp add: take_Cons' butlast_conv_take)
  finally have 2: "entries_list (set_c c k v) = (k, v) # butlast (entries_list c)" .
  show ?thesis
    using 1 2 kt tl size_c_set_c_evict[OF nk full]
    by (simp add: flds has_def)
qed

theorem set_evicts_tail_witness:
  "reachable demo \<and> size_c demo = capacity demo \<and> \<not> fst (has demo (Some ''d'')) \<and>
   keys demo (tail demo) = Some ''a'' \<and>
   \<not> fst (has (set_c demo (Some ''d'') (Some 4)) (Some ''a'')) \<and>
   fst (has (set_c demo (Some ''d'') (Some 4)) (Some ''d'')) \<and>
   size_c (set_c demo (Some ''d'') (Some 4)) = 3 \<and>
   entries_list (set_c demo (Some ''d'') (Some 4)) =
     [(Some ''d'', Some 4), (Some ''c'', Some 3), (Some ''b'', Some 2)]"
proof -
  have h2: "size_c demo = capacity demo" by (simp add: demo_state)
  have h3: "\<not> fst (has demo (Some ''d''))" by (simp add: demo_state)
  show ?thesis
    using set_evicts_tail[OF reachable_demo h2 h3, of "Some 4"] reachable_demo
    by (simp add: demo_state demo_entries)
qed

text \<open>
  The claim as stated fails in a cache of capacity 0, where the size always equals the
  capacity. There is no tail slot and entries yields nothing; set(z) takes the eviction
  path, leaves the oldest key x resident and removes y, the key set last.
\<close>

theorem set_evicts_tail_counterexample:
  "LRUCache 0 (Num 0) = Inr (fresh 0 :: (string, nat) cache) \<and>
   zero2 = set_c (set_c (fresh 0) (Some ''x'') (Some 1)) (Some ''y'') (Some 2) \<and>
   size_c zero2 = capacity zero2 \<and> \<not> fst (has zero2 (Some ''z'')) \<and>
   tail zero2 = None \<and> entries_list zero2 = [] \<and>
   fst (has zero2 (Some ''x'')) \<and> fst (has zero2 (Some ''y'')) \<and>
   fst (has (set_c zero2 (Some ''z'') (Some 3)) (Some ''x'')) \<and>
   \<not> fst (has (set_c zero2 (Some ''z'') (Some 3)) (Some ''y''))"
proof -
  have "LRUCache 0 (Num 0) = Inr (fresh 0 :: (string, nat) cache)"
    by (rule LRUCache_zero)
  moreover have "fst (has (set_c zero2 (Some ''z'') (Some 3)) (Some ''x''))"
      "\<not> fst (has (set_c zero2 (Some ''z'') (Some 3)) (Some ''y''))"
    by (simp_all add: zero2_def zero1_def eval_simps)
  moreover have "zero2 = set_c (set_c (fresh 0) (Some ''x'') (Some 1)) (Some ''y'') (Some 2)"
    by (simp only: zero2_def zero1_def)
  ultimately show ?thesis by (simp only: zero2_state zero_entries simp_thms)
qed

text \<open>
  C3, as amended. For every reachable state, that is every state of a cache constructed
  with a positive capacity, and every key k and value v: set(k, v) followed at once by
  get(k) returns v.
\<close>

theorem set_then_get:
  assumes "reachable c"
  shows "fst (get (set_c c k v) k) = v"
proof -
  from assms obtain ps where inv: "lru_inv c ps" using reachable_inv by blast
  have "reachable (set_c c k v)" using assms by (rule reach_set)
  then obtain ps' where inv': "lru_inv (set_c c k v) ps'" using reachable_inv by blast
  from set_c_stored[OF inv, of k v] obtain p where
    p: "items_get (set_c c k v) k = Some p" "values_c (set_c c k v) (Some p) = v" by blast
  show ?thesis using get_present(1)[OF inv' p(1)] p(2) by simp
qed

theorem set_then_get_witness:
  "reachable demo \<and> fst (get (set_c demo (Some ''d'') (Some 4)) (Some ''d'')) = Some 4 \<and>
   fst (get (set_c demo (Some ''a'') (Some 5)) (Some ''a'')) = Some 5"
  using set_then_get[OF reachable_demo, of "Some ''d''" "Some 4"]
    set_then_get[OF reachable_demo, of "Some ''a''" "Some 5"] reachable_demo
  by simp

text \<open>
  The claim as stated fails in a cache of capacity 0: after set(x, 1) the tail is
  undefined, so set(y, 2) stores y under the pointer undefined, and get(y) takes that
  pointer for "not found" and returns undefined.
\<close>

theorem set_then_get_counterexample:
  "LRUCache 0 (Num 0) = Inr (fresh 0 :: (string, nat) cache) \<and>
   zero1 = set_c (fresh 0) (Some ''x'') (Some 1) \<and>
   fst (get (set_c zero1 (Some ''y'') (Some 2)) (Some ''y'')) = None"
proof -
  have "LRUCache 0 (Num 0) = Inr (fresh 0 :: (string, nat) cache)"
    by (rule LRUCache_zero)
  moreover have "fst (get (set_c zero1 (Some ''y'') (Some 2)) (Some ''y'')) = None"
    by (simp add: zero1_def eval_simps)
  moreover have "zero1 = set_c (fresh 0) (Some ''x'') (Some 1)"
    by (simp only: zero1_def)
  ultimately show ?thesis by (simp only: simp_thms)
qed

text \<open>
  C4, as amended. For every reachable state, that is every state of a cache constructed
  with a positive capacity, and every key k present in the cache: the traversal that
  follows get(k) yields k with its value (the value get returned, which the cache held
  for k) as the first pair, then the other entries in their former order; its length is
  exactly the size.
\<close>

theorem get_moves_to_front:
  assumes "reachable c" and "fst (has c k)"
  shows "entries_list (snd (get c k)) =
           (k, fst (get c k)) # filter (\<lambda>e. fst e \<noteq> k) (entries_list c) \<and>
         (k, fst (get c k)) \<in> set (entries_list c) \<and>
         length (entries_list (snd (get c k))) = size_c (snd (get c k)) \<and>
         size_c (snd (get c k)) = size_c c"
proof -
  from assms(1) obtain ps where inv: "lru_inv c ps" using reachable_inv by blast
  from assms(2) obtain p where ex: "items_get c k = Some p"
    using lru_inv_has_items_get[OF inv, of k] by auto
  note g = get_present[OF inv ex]
  have "(k, values_c c (Some p)) \<in> set (entries_list c)"
    using g(3,4) by (auto simp: entries_list_inv[OF inv])
  moreover have "size_c (snd (get c k)) = size_c c"
    by (simp add: get_def Let_def)
  moreover have "length (entries_list (snd (get c k))) = size_c (snd (get c k))"
    by (rule length_entries_list)
  ultimately show ?thesis
    using g(1,2) by (simp only:)
qed

theorem get_moves_to_front_witness:
  "reachable demo \<and> fst (has demo (Some ''a'')) \<and>
   entries_list (snd (get demo (Some ''a''))) =
     [(Some ''a'', Some 1), (Some ''c'', Some 3), (Some ''b'', Some 2)] \<and>
   length (entries_list (snd (get demo (Some ''a'')))) = size_c (snd (get demo (Some ''a'')))"
proof -
  have h: "fst (has demo (Some ''a''))" by (simp add: demo_state)
  show ?thesis
    using get_moves_to_front[OF reachable_demo h] reachable_demo h
    by (simp add: demo_get demo_entries demo_state)
qed

text \<open>
  The claim as stated fails in a cache of capacity 0: x is present and get(x) returns its
  value, but the size stays 0 and the traversal that follows yields nothing.
\<close>

theorem get_moves_to_front_counterexample:
  "LRUCache 0 (Num 0) = Inr (fresh 0 :: (string, nat) cache) \<and>
   zero1 = set_c (fresh 0) (Some ''x'') (Some 1) \<and>
   fst (has zero1 (Some ''x'')) \<and> fst (get zero1 (Some ''x'')) = Some 1 \<and>
   entries_list (snd (get zero1 (Some ''x''))) = []"
proof -
  have "LRUCache 0 (Num 0) = Inr (fresh 0 :: (string, nat) cache)"
    by (rule LRUCache_zero)
  moreover have "fst (get zero1 (Some ''x'')) = Some 1"
    "entries_list (snd (get zero1 (Some ''x''))) = []"
    by (simp_all add: zero1_def eval_simps consume_done)
  moreover have "zero1 = set_c (fresh 0) (Some ''x'') (Some 1)"
    by (simp only: zero1_def)
  ultimately show ?thesis by (simp only: zero1_state simp_thms)
qed

text \<open>
  C5. splayOnTop on a live slot p of a reachable state: it changes nothing when p is the
  head; in every case p is the head afterwards, the size is unchanged, and entries yields
  the entry of p first and the other entries in their former order. Hence get on the
  key of the head changes nothing, and a second get of any key changes nothing after
  the first.
\<close>

theorem splayOnTop_promotes:
  assumes "reachable c" and "p < size_c c"
  shows "(head c = Some p \<longrightarrow> splayOnTop c (Some p) = c) \<and>
         head (splayOnTop c (Some p)) = Some p \<and>
         size_c (splayOnTop c (Some p)) = size_c c \<and>
         entries_list (splayOnTop c (Some p)) =
           (keys c (Some p), values_c c (Some p)) #
           filter (\<lambda>e. fst e \<noteq> keys c (Some p)) (entries_list c) \<and>
         snd (get c (keys c (head c))) = c \<and>
         snd (get (snd (get c k)) k) = snd (get c k)"
proof -
  from assms(1) obtain ps where inv: "lru_inv c ps" using reachable_inv by blast
  have p: "p \<in> set ps" using inv assms(2) by (simp add: lru_inv_def)
  have d: "distinct ps" using inv by (simp add: lru_inv_def)
  have 1: "head c = Some p \<longrightarrow> splayOnTop c (Some p) = c"
    using splayOnTop_head[of c] by auto
  have inv': "lru_inv (splayOnTop c (Some p)) (p # remove1 p ps)"
    by (rule splayOnTop_inv[OF inv p])
  have "entries_list (splayOnTop c (Some p)) =
          map (\<lambda>q. (keys c (Some q), values_c c (Some q))) (p # remove1 p ps)"
    using entries_list_inv[OF inv'] by simp
  also have "\<dots> = (keys c (Some p), values_c c (Some p)) #
        filter (\<lambda>e. fst e \<noteq> keys c (Some p))
          (map (\<lambda>q. (keys c (Some q), values_c c (Some q))) ps)"
    using map_remove1_filter[OF d lru_inv_inj[OF inv] p, of "\<lambda>q. values_c c (Some q)"]
    by simp
  finally have 2: "entries_list (splayOnTop c (Some p)) =
           (keys c (Some p), values_c c (Some p)) #
           filter (\<lambda>e. fst e \<noteq> keys c (Some p)) (entries_list c)"
    by (simp add: entries_list_inv[OF inv])
  have ps: "ps \<noteq> []" using p by auto
  then have hd: "head c = Some (hd ps)" and hin: "hd ps < size_c c"
    using inv by (auto simp: lru_inv_def)
  then have "items c (keys c (head c)) = Some (head c)"
    using inv by (simp add: lru_inv_def)
  then have "items_get c (keys c (head c)) = head c"
    by (simp add: items_get_def)
  then have 3: "snd (get c (keys c (head c))) = c"
    using hd splayOnTop_head[of c] by (simp add: get_def Let_def)
  show ?thesis using 1 2 3 get_twice[of c k] by simp
qed

theorem splayOnTop_promotes_witness:
  "reachable demo \<and> 0 < size_c demo \<and> 2 < size_c demo \<and> head demo = Some 2 \<and>
   splayOnTop demo (Some 2) = demo \<and>
   head (splayOnTop demo (Some 0)) = Some 0 \<and>
   size_c (splayOnTop demo (Some 0)) = 3 \<and>
   entries_list (splayOnTop demo (Some 0)) =
     [(Some ''a'', Some 1), (Some ''c'', Some 3), (Some ''b'', Some 2)] \<and>
   snd (get demo (Some ''c'')) = demo"
proof -
  have h0: "0 < size_c demo" and h2: "2 < size_c demo" by (simp_all add: demo_state)
  show ?thesis
    using splayOnTop_promotes[OF reachable_demo h0, of "Some ''c''"]
      splayOnTop_promotes[OF reachable_demo h2, of "Some ''c''"] reachable_demo
    by (simp add: demo_state demo_entries)
qed

text \<open>
  C6, as amended. For every cache state and key k, has(k) leaves the whole state
  unchanged, and with it the order of entries. get(k), for a key k that is present in a
  reachable state (a state of a cache constructed with a positive capacity) and is not
  the key of the head, changes what entries yields.
\<close>

theorem has_is_pure_get_reorders:
  "snd (has c k) = c \<and> entries_list (snd (has c k)) = entries_list c \<and>
   (reachable c \<and> fst (has c k) \<and> keys c (head c) \<noteq> k \<longrightarrow>
      entries_list (snd (get c k)) \<noteq> entries_list c)"
proof -
  have "entries_list (snd (get c k)) \<noteq> entries_list c"
    if r: "reachable c" and h: "fst (has c k)" and nh: "keys c (head c) \<noteq> k"
  proof -
    from r obtain ps where inv: "lru_inv c ps" using reachable_inv by blast
    from h obtain p where ex: "items_get c k = Some p"
      using lru_inv_has_items_get[OF inv, of k] by auto
    note g = get_present[OF inv ex]
    have ps: "ps \<noteq> []" using g(3) by auto
    then have hd: "head c = Some (hd ps)" using inv by (simp add: lru_inv_def)
    have "fst (hd (entries_list c)) = keys c (head c)"
      using ps by (simp add: entries_list_inv[OF inv] hd hd_map)
    moreover have "fst (hd (entries_list (snd (get c k)))) = k"
      by (simp add: g(2))
    ultimately show ?thesis using nh by auto
  qed
  then show ?thesis by (simp add: has_def)
qed

theorem has_is_pure_get_reorders_witness:
  "reachable demo \<and> fst (has demo (Some ''a'')) \<and> keys demo (head demo) \<noteq> Some ''a'' \<and>
   snd (has demo (Some ''a'')) = demo \<and>
   entries_list (snd (get demo (Some ''a''))) \<noteq> entries_list demo"
proof -
  have h2: "fst (has demo (Some ''a''))" by (simp add: demo_state)
  have h3: "keys demo (head demo) \<noteq> Some ''a''" by (simp add: demo_state)
  show ?thesis
    using has_is_pure_get_reorders[of demo "Some ''a''"] reachable_demo h2 h3
    by simp
qed

text \<open>
  The claim as stated fails for a key that is absent: in the scenario, d is not the key
  of the head (that is c), and get(d) leaves the order of entries as it was. It also
  fails for a present key in a cache of capacity 0: there y is present, the key of the
  head is x, and entries yields nothing before and after get(y).
\<close>

theorem get_always_reorders_counterexample:
  "reachable demo \<and> \<not> fst (has demo (Some ''d'')) \<and>
   keys demo (head demo) = Some ''c'' \<and>
   entries_list (snd (get demo (Some ''d''))) = entries_list demo \<and>
   LRUCache 0 (Num 0) = Inr (fresh 0 :: (string, nat) cache) \<and>
   zero2 = set_c (set_c (fresh 0) (Some ''x'') (Some 1)) (Some ''y'') (Some 2) \<and>
   fst (has zero2 (Some ''y'')) \<and> keys zero2 (head zero2) = Some ''x'' \<and>
   entries_list (snd (get zero2 (Some ''y''))) = entries_list zero2"
proof -
  have "entries_list (snd (get demo (Some ''d''))) = entries_list demo"
    by (simp add: demo_state get_def items_get_def)
  moreover have "LRUCache 0 (Num 0) = Inr (fresh 0 :: (string, nat) cache)"
    by (rule LRUCache_zero)
  moreover have "zero2 = set_c (set_c (fresh 0) (Some ''x'') (Some 1)) (Some ''y'') (Some 2)"
    by (simp only: zero2_def zero1_def)
  moreover have "entries_list (snd (get zero2 (Some ''y''))) = entries_list zero2"
    by (simp add: zero2_state get_def items_get_def)
  moreover have "keys zero2 (head zero2) = Some ''x''" "keys demo (head demo) = Some ''c''"
    by (simp_all add: zero2_state demo_state)
  ultimately show ?thesis
    using reachable_demo by (simp only: demo_state(8) zero2_state(11) simp_thms)
qed

text \<open>
  C7. For every cache state and key k that is not present, get(k) returns undefined (no
  exception: \<open>get\<close> has no error result) and leaves the whole state unchanged, and so the
  order of entries.
\<close>

theorem get_absent:
  assumes "\<not> fst (has c k)"
  shows "get c k = (None, c) \<and> entries_list (snd (get c k)) = entries_list c"
proof -
  from assms have "items c k = None" by (auto simp: has_def)
  then have "items_get c k = None" by (simp add: items_get_def)
  then show ?thesis by (simp add: get_def)
qed

theorem get_absent_witness:
  "\<not> fst (has demo (Some ''d'')) \<and> get demo (Some ''d'') = (None, demo)"
proof -
  have h: "\<not> fst (has demo (Some ''d''))" by (simp add: demo_state)
  show ?thesis using get_absent[OF h] h by simp
qed

text \<open>
  C8, as amended. Constructing a cache with a capacity that is a number and is invalid
  because it is negative, not an integer (NaN and the infinities included), or above
  \<open>2^32 - 1\<close> and so beyond every slot width, fails at construction time with RangeError,
  whatever the engine can allocate, and no instance is created. The capacity 0, although
  not positive, is accepted: an instance is created.
\<close>

theorem LRUCache_rejects:
  "LRUCache heap NaN = (Inl RangeError :: error + ('k, 'v) cache) \<and>
   LRUCache heap PosInf = (Inl RangeError :: error + ('k, 'v) cache) \<and>
   LRUCache heap NegInf = (Inl RangeError :: error + ('k, 'v) cache) \<and>
   (n < 0 \<or> n \<noteq> of_int \<lfloor>n\<rfloor> \<or> 2 ^ 32 - 1 < n \<longrightarrow>
      LRUCache heap (Num n) = (Inl RangeError :: error + ('k, 'v) cache)) \<and>
   LRUCache heap (Num 0) = Inr (fresh 0 :: ('k, 'v) cache)"
proof -
  have e: "x = RangeError" for x :: error by (cases x) simp
  have 1: "LRUCache heap NaN = (Inl RangeError :: error + ('k, 'v) cache)"
    by (simp add: LRUCache_def Let_def new_PointerArray_def to_index_def new_Array_def)
  have 2: "LRUCache heap PosInf = (Inl RangeError :: error + ('k, 'v) cache)"
    by (simp add: LRUCache_def Let_def new_PointerArray_def to_index_def)
  have 3: "LRUCache heap NegInf = (Inl RangeError :: error + ('k, 'v) cache)"
    by (simp add: LRUCache_def Let_def new_PointerArray_def to_index_def)
  have 4: "LRUCache heap (Num n) = (Inl RangeError :: error + ('k, 'v) cache)"
    if "n < 0 \<or> n \<noteq> of_int \<lfloor>n\<rfloor> \<or> 2 ^ 32 - 1 < n"
  proof -
    from that have "new_Array (Num n) = (Inl RangeError :: error + 'k jsarray)"
      by (auto simp: new_Array_def)
    then show ?thesis
      by (auto simp: LRUCache_def Let_def e split: sum.splits)
  qed
  show ?thesis using 1 2 3 4 LRUCache_zero[of heap] by blast
qed

theorem LRUCache_rejects_witness:
  "(- 1 :: rat) < 0 \<and> (3 / 2 :: rat) \<noteq> of_int \<lfloor>3 / 2 :: rat\<rfloor> \<and>
   (2 ^ 32 - 1 :: rat) < 2 ^ 32 \<and>
   LRUCache 64 (Num (- 1)) = (Inl RangeError :: error + (string, nat) cache) \<and>
   LRUCache 64 (Num (3 / 2)) = (Inl RangeError :: error + (string, nat) cache) \<and>
   LRUCache 64 (Num (2 ^ 32)) = (Inl RangeError :: error + (string, nat) cache) \<and>
   LRUCache 64 NaN = (Inl RangeError :: error + (string, nat) cache) \<and>
   LRUCache 64 (Num 0) = Inr (fresh 0 :: (string, nat) cache)"
proof -
  have f: "\<lfloor>3 / 2 :: rat\<rfloor> = 1" by (rule floor_unique) simp_all
  have h1: "(- 1 :: rat) < 0" by simp
  have h2: "(3 / 2 :: rat) \<noteq> of_int \<lfloor>3 / 2 :: rat\<rfloor>" by (simp add: f)
  have h3: "(2 ^ 32 - 1 :: rat) < 2 ^ 32" by simp
  have 1: "LRUCache 64 (Num (- 1)) = (Inl RangeError :: error + (string, nat) cache)"
    using LRUCache_rejects[of 64 "- 1", where ?'k = string and ?'v = nat] h1 by blast
  have 2: "LRUCache 64 (Num (3 / 2)) = (Inl RangeError :: error + (string, nat) cache)"
    using LRUCache_rejects[of 64 "3 / 2", where ?'k = string and ?'v = nat] h2 by blast
  have 3: "LRUCache 64 (Num (2 ^ 32)) = (Inl RangeError :: error + (string, nat) cache)"
    using LRUCache_rejects[of 64 "2 ^ 32", where ?'k = string and ?'v = nat] h3 by blast
  have 4: "LRUCache 64 NaN = (Inl RangeError :: error + (string, nat) cache)"
      "LRUCache 64 (Num 0) = Inr (fresh 0 :: (string, nat) cache)"
    using LRUCache_rejects[of 64 0, where ?'k = string and ?'v = nat] by blast+
  show ?thesis using h1 h2 h3 1 2 3 4 by blast
qed

text \<open>
  The claim as stated fails at capacity 0, which is not positive: the constructor returns
  an instance, even in an engine that can allocate nothing.
\<close>

theorem LRUCache_zero_counterexample:
  "(0::rat) \<le> 0 \<and> LRUCache 0 (Num 0) = Inr (fresh 0 :: (string, nat) cache)"
  using LRUCache_zero[of 0] by simp

text \<open>
  C9. For every cache state, clear sets size, head and tail to 0 and empties the key
  index, leaves the keys, values, forward and backward arrays (and the capacity) as they
  were, and entries yields nothing afterwards.
\<close>

theorem clear_resets:
  "size_c (clear c) = 0 \<and> head (clear c) = Some 0 \<and> tail (clear c) = Some 0 \<and>
   items (clear c) = Map.empty \<and> keys (clear c) = keys c \<and>
   values_c (clear c) = values_c c \<and> forward (clear c) = forward c \<and>
   backward (clear c) = backward c \<and> capacity (clear c) = capacity c \<and>
   entries_list (clear c) = []"
  by (simp add: clear_def entries_list_def entries_def consume_done)

theorem clear_resets_witness:
  "size_c (clear demo) = 0 \<and> entries_list (clear demo) = [] \<and>
   keys (clear demo) (Some 0) = Some ''a'' \<and> values_c (clear demo) (Some 0) = Some 1"
  using clear_resets[of demo] by (simp add: demo_state)

text \<open>
  C10. entries does not change the cache: it returns the state it was given; after the
  iterator has been consumed to the end, the arrays it captured (which are the cache's
  own) are as they were, and nothing else of the cache is within its reach; the
  traversal has the length of the size; and a second entries call right after the first
  yields the same sequence.
\<close>

theorem entries_is_pure:
  "snd (entries c) = c \<and>
   it_keys (drain (fst (entries c))) = keys c \<and>
   it_values (drain (fst (entries c))) = values_c c \<and>
   it_forward (drain (fst (entries c))) = forward c \<and>
   fst (entries_next (drain (fst (entries c)))) = Done \<and>
   length (entries_list c) = size_c c \<and>
   entries_list (snd (entries c)) = entries_list c"
  using drain_captured[of "fst (entries c)"]
  by (simp add: entries_def length_entries_list)

theorem entries_is_pure_witness:
  "snd (entries demo) = demo \<and>
   it_forward (drain (fst (entries demo))) = forward demo \<and>
   entries_list (snd (entries demo)) =
     [(Some ''c'', Some 3), (Some ''b'', Some 2), (Some ''a'', Some 1)]"
  using entries_is_pure[of demo] by (simp add: demo_entries)

end
